theory Spec2Isabelle
  imports Complex_Main
begin

section \<open>Errors\<close>

text \<open>
  Every exception the modelled code can raise is a value. The type parameter \<open>'x\<close> is
  the type of failures raised inside the tensor library (a module call, a functional),
  which the code under study neither raises nor catches itself.
\<close>

datatype 'x error =
    LayerValueError string
      \<comment> \<open>\<open>ValueError(f"Layer {layer} is not part of the multi-layer encoder.")\<close>; the
          argument is the name whose lookup failed (\<open>layer\<close> is the first word of the
          message of \<open>list.index\<close>, the \<open>repr\<close> of a name without white space)\<close>
  | ListIndexValueError string
      \<comment> \<open>the \<open>ValueError\<close> of an uncaught \<open>list.index\<close>\<close>
  | IndexError
      \<comment> \<open>\<open>sorted(...)[-1]\<close> on an empty list\<close>
  | KeyError string
      \<comment> \<open>\<open>storage[layer]\<close> for a missing key\<close>
  | EncodingCountError nat nat
      \<comment> \<open>the \<open>RuntimeError\<close> of \<open>MultiLayerLoss.forward\<close>: number of input encodings,
          number of stored target encodings\<close>
  | ZeroDivisionError
      \<comment> \<open>\<open>sum(sized) / len(sized)\<close> on an empty list\<close>
  | AttributeError nat
      \<comment> \<open>\<open>getattr(self, "_target_encs_{idx}")\<close> for a buffer that was never registered\<close>
  | NotImplementedError
      \<comment> \<open>\<open>MultiLayerLoss.calculate_score\<close> of the base class\<close>
  | UnpackValueError nat
      \<comment> \<open>unpacking a sequence of the wrong length into two names\<close>
  | TorchError 'x
      \<comment> \<open>anything raised inside a call into the tensor library\<close>

section \<open>Multi-layer encoder\<close>

text \<open>
  \<open>MultiLayerEncoder\<close> subclasses \<open>nn.Sequential\<close>: an ordered dictionary of named
  modules. The model is the list that \<open>named_children()\<close> yields, in order. A module maps
  an image (or the previous activation) to the next activation, or fails inside the
  tensor library. The names of an ordered dictionary are distinct; theorems that depend
  on it say so.
\<close>

type_synonym ('a, 'x) module = "'a \<Rightarrow> 'x + 'a"
type_synonym ('a, 'x) encoder = "(string \<times> ('a, 'x) module) list"

definition children_names :: "('a, 'x) encoder \<Rightarrow> string list" where
  "children_names enc = map fst enc"

text \<open>\<open>list.index\<close>: the first position of a value, \<open>None\<close> where Python raises \<open>ValueError\<close>.\<close>

fun list_index :: "'k list \<Rightarrow> 'k \<Rightarrow> nat option" where
  "list_index [] x = None"
| "list_index (y # ys) x = (if y = x then Some 0 else map_option Suc (list_index ys x))"

text \<open>
  \<open>req_layers = set(itertools.chain(*layer_cfgs))\<close>: Python does not fix the order in
  which a set of strings is iterated. The model takes that order as a parameter \<open>it\<close>,
  a function from the chained names to the sequence in which the set yields them; any
  such function returns the same names, each once.
\<close>

definition set_order :: "(string list \<Rightarrow> string list) \<Rightarrow> bool" where
  "set_order it \<longleftrightarrow> (\<forall>xs. set (it xs) = set xs \<and> distinct (it xs))"

text \<open>
  \<open>_find_deepest_layer\<close>, on the requested names in iteration order. \<open>sorted\<close> computes
  the key \<open>children_names.index\<close> of every element first, in order, so the first
  unknown name raises the \<open>ValueError\<close> that the \<open>except\<close> clause turns into the
  encoder's own; \<open>[-1]\<close> on an empty result raises \<open>IndexError\<close>, which is not caught.
  Where the sort is reached every name has a position, and \<open>depth\<close> is the sort key
  \<open>children_names.index\<close>.
\<close>

definition depth :: "string list \<Rightarrow> string \<Rightarrow> nat" where
  "depth names l = (case list_index names l of Some i \<Rightarrow> i | None \<Rightarrow> length names)"

definition find_deepest_layer :: "string list \<Rightarrow> string list \<Rightarrow> 'x error + string" where
  "find_deepest_layer names req_layers =
     (case List.find (\<lambda>l. list_index names l = None) req_layers of
        Some layer \<Rightarrow> Inl (LayerValueError layer)
      | None \<Rightarrow>
          (case sort_key (depth names) req_layers of
             [] \<Rightarrow> Inl IndexError
           | l # ls \<Rightarrow> Inr (last (l # ls))))"

text \<open>
  The dictionary \<open>storage\<close> keeps its keys in insertion order; assigning to an existing
  key replaces the value in place.
\<close>

fun dict_set :: "('k \<times> 'v) list \<Rightarrow> 'k \<Rightarrow> 'v \<Rightarrow> ('k \<times> 'v) list" where
  "dict_set [] k v = [(k, v)]"
| "dict_set ((k', v') # kvs) k v =
     (if k' = k then (k, v) # kvs else (k', v') # dict_set kvs k v)"

definition dict_get :: "(string \<times> 'v) list \<Rightarrow> string \<Rightarrow> 'x error + 'v" where
  "dict_get storage k = (case map_of storage k of None \<Rightarrow> Inl (KeyError k) | Some v \<Rightarrow> Inr v)"

text \<open>
  The loop of \<open>forward\<close>:
  \<^verbatim>\<open>
  for layer, module in self.named_children():
      image = storage[layer] = module(image)
      if layer == deepest_layer:
          break
  \<close>
\<close>

fun run_layers ::
  "('a, 'x) encoder \<Rightarrow> string \<Rightarrow> 'a \<Rightarrow> (string \<times> 'a) list \<Rightarrow> 'x error + (string \<times> 'a) list"
where
  "run_layers [] deepest_layer img storage = Inr storage"
| "run_layers ((layer, mdl) # rest) deepest_layer img storage =
     (case mdl img of
        Inl x \<Rightarrow> Inl (TorchError x)
      | Inr y \<Rightarrow>
          (if layer = deepest_layer then Inr (dict_set storage layer y)
           else run_layers rest deepest_layer y (dict_set storage layer y)))"

text \<open>
  For comparison, the spec's reading of the encoder: the network is run forward once
  through a sequence of layers, every intermediate activation is kept, and a failing
  layer ends the pass.
\<close>

fun forward_pass :: "('a, 'x) encoder \<Rightarrow> 'a \<Rightarrow> 'x + 'a list" where
  "forward_pass [] img = Inr []"
| "forward_pass ((layer, mdl) # rest) img =
     (case mdl img of
        Inl x \<Rightarrow> Inl x
      | Inr y \<Rightarrow> (case forward_pass rest y of Inl x \<Rightarrow> Inl x | Inr ys \<Rightarrow> Inr (y # ys)))"

text \<open>The position of the deepest layer that a family of collections requests.\<close>

definition deepest_requested :: "string list \<Rightarrow> string list list \<Rightarrow> nat" where
  "deepest_requested names layer_cfgs = Max (set (map (depth names) (concat layer_cfgs)))"

text \<open>Sequencing of fallible steps over a list, left to right, stopping at the first error.\<close>

fun collect :: "('b \<Rightarrow> 'e + 'c) \<Rightarrow> 'b list \<Rightarrow> 'e + 'c list" where
  "collect f [] = Inr []"
| "collect f (b # bs) =
     (case f b of
        Inl e \<Rightarrow> Inl e
      | Inr c \<Rightarrow> (case collect f bs of Inl e \<Rightarrow> Inl e | Inr cs \<Rightarrow> Inr (c # cs)))"

definition MultiLayerEncoder_forward ::
  "(string list \<Rightarrow> string list) \<Rightarrow> ('a, 'x) encoder \<Rightarrow> 'a \<Rightarrow> string list list
     \<Rightarrow> 'x error + 'a list list"
where
  "MultiLayerEncoder_forward it enc img layer_cfgs =
     (case find_deepest_layer (children_names enc) (it (concat layer_cfgs)) of
        Inl e \<Rightarrow> Inl e
      | Inr deepest_layer \<Rightarrow>
          (case run_layers enc deepest_layer img [] of
             Inl e \<Rightarrow> Inl e
           | Inr storage \<Rightarrow> collect (collect (dict_get storage)) layer_cfgs))"


section \<open>Multi-layer loss\<close>

text \<open>
  Scores are real numbers: the model idealises the floating-point arithmetic of the
  tensor library (no rounding, no overflow).

  \<open>mean(sized) = sum(sized) / len(sized)\<close> on a Python list.
\<close>

definition mean :: "real list \<Rightarrow> 'x error + real" where
  "mean sized = (if length sized = 0 then Inl ZeroDivisionError
                 else Inr (sum_list sized / real (length sized)))"

text \<open>
  A \<open>MultiLayerLoss\<close> holds its score weight, the number of stored target encodings and
  the registered buffers. The buffer of index \<open>idx\<close> is named \<open>_target_encs_{idx}\<close>; the
  model keys the buffers by \<open>idx\<close>.
\<close>

record 'enc MultiLayerLoss =
  score_weight :: real
  numel_target_encs :: nat
  buffers :: "nat \<rightharpoonup> 'enc"

definition MultiLayerLoss_init :: "real \<Rightarrow> 'enc MultiLayerLoss" where
  "MultiLayerLoss_init w = \<lparr>score_weight = w, numel_target_encs = 0, buffers = Map.empty\<rparr>"

text \<open>
  \<open>set_target_encs\<close> stores the count, then registers one buffer per encoding
  (\<open>enc.detach()\<close> has the same values as \<open>enc\<close>). Buffers of an earlier, longer call
  stay registered.
\<close>

definition register_buffer :: "(nat \<rightharpoonup> 'enc) \<Rightarrow> nat \<Rightarrow> 'enc \<Rightarrow> (nat \<rightharpoonup> 'enc)" where
  "register_buffer b idx enc = b(idx \<mapsto> enc)"

definition set_target_encs :: "'enc MultiLayerLoss \<Rightarrow> 'enc list \<Rightarrow> 'enc MultiLayerLoss" where
  "set_target_encs self encs =
     self\<lparr>numel_target_encs := length encs,
          buffers := fold (\<lambda>(idx, enc) b. register_buffer b idx enc) (enumerate 0 encs)
                       (buffers self)\<rparr>"

definition target_encs :: "'enc MultiLayerLoss \<Rightarrow> 'x error + 'enc list" where
  "target_encs self =
     collect (\<lambda>idx. case buffers self idx of None \<Rightarrow> Inl (AttributeError idx) | Some enc \<Rightarrow> Inr enc)
       [0 ..< numel_target_encs self]"

text \<open>
  \<open>forward\<close>, with the subclass hook \<open>calculate_score\<close> as the parameter \<open>calc\<close>. It reads
  the operator and writes nothing; the model returns the operator next to the result, so
  that what a call leaves behind can be stated.
\<close>

definition MultiLayerLoss_forward ::
  "('enc \<Rightarrow> 'enc \<Rightarrow> 'x error + real) \<Rightarrow> 'enc MultiLayerLoss \<Rightarrow> 'enc list
     \<Rightarrow> 'enc MultiLayerLoss \<times> ('x error + real)"
where
  "MultiLayerLoss_forward calc self input_encs =
     (self,
      if length input_encs \<noteq> numel_target_encs self
      then Inl (EncodingCountError (length input_encs) (numel_target_encs self))
      else
        (case target_encs self of
           Inl e \<Rightarrow> Inl e
         | Inr targets \<Rightarrow>
             (case collect (\<lambda>(input, target). calc input target) (zip input_encs targets) of
                Inl e \<Rightarrow> Inl e
              | Inr layer_losses \<Rightarrow>
                  (case mean layer_losses of
                     Inl e \<Rightarrow> Inl e
                   | Inr m \<Rightarrow> Inr (m * score_weight self)))))"

text \<open>The base class: \<open>calculate_score\<close> raises \<open>NotImplementedError\<close>.\<close>

definition calculate_score_base :: "'enc \<Rightarrow> 'enc \<Rightarrow> 'x error + real" where
  "calculate_score_base input target = Inl NotImplementedError"



section \<open>Tensors\<close>

text \<open>
  A tensor of the tensor library is a shape and its elements in row-major order. The
  library keeps \<open>length (elems t) = prod_list (shape t)\<close>.
\<close>

record tensor =
  shape :: "nat list"
  elems :: "real list"

definition wf_tensor :: "tensor \<Rightarrow> bool" where
  "wf_tensor t \<longleftrightarrow> length (elems t) = prod_list (shape t)"

text \<open>
  What the functions of the tensor library used here can end in, other than a tensor:
  an exception, or a result that holds \<open>nan\<close> or \<open>inf\<close> (a division by a size that is
  zero). The latter is a value in the library, which every later arithmetic step
  propagates; the model of real-valued scores has no such value and ends there.
\<close>

datatype torch_error = DimensionOutOfRange | SizeMismatch | NotBroadcastable | NonFinite

text \<open>\<open>torch.flatten(x, 2)\<close>: the dimensions from the third on become one.\<close>

definition flatten_2 :: "tensor \<Rightarrow> torch_error + tensor" where
  "flatten_2 x =
     (if length (shape x) < 3 then Inl DimensionOutOfRange
      else Inr (x\<lparr>shape := take 2 (shape x) @ [prod_list (drop 2 (shape x))]\<rparr>))"

text \<open>Element \<open>[b, i, j]\<close> of a three-dimensional tensor.\<close>

definition at3 :: "tensor \<Rightarrow> nat \<Rightarrow> nat \<Rightarrow> nat \<Rightarrow> real" where
  "at3 t b i j = elems t ! ((b * (shape t ! 1) + i) * (shape t ! 2) + j)"

definition tensor3 :: "nat \<Rightarrow> nat \<Rightarrow> nat \<Rightarrow> (nat \<Rightarrow> nat \<Rightarrow> nat \<Rightarrow> real) \<Rightarrow> tensor" where
  "tensor3 d0 d1 d2 f =
     \<lparr>shape = [d0, d1, d2],
      elems = concat (map (\<lambda>b. concat (map (\<lambda>i. map (\<lambda>j. f b i j) [0 ..< d2]) [0 ..< d1])) [0 ..< d0])\<rparr>"

text \<open>
  \<open>x.transpose(1, 2)\<close> and \<open>torch.bmm\<close>, on the three-dimensional tensors that
  \<open>channelwise_gram_matrix\<close> hands them (other ranks are not modelled and end in an
  error).
\<close>

definition transpose_1_2 :: "tensor \<Rightarrow> torch_error + tensor" where
  "transpose_1_2 x =
     (case shape x of
        [d0, d1, d2] \<Rightarrow> Inr (tensor3 d0 d2 d1 (\<lambda>b i j. at3 x b j i))
      | _ \<Rightarrow> Inl DimensionOutOfRange)"

definition bmm :: "tensor \<Rightarrow> tensor \<Rightarrow> torch_error + tensor" where
  "bmm x y =
     (case (shape x, shape y) of
        ([b, n, m], [b', m', p]) \<Rightarrow>
          (if b = b' \<and> m = m'
           then Inr (tensor3 b n p (\<lambda>c i j. \<Sum>k\<leftarrow>[0 ..< m]. at3 x c i k * at3 y c k j))
           else Inl SizeMismatch)
      | _ \<Rightarrow> Inl SizeMismatch)"

text \<open>\<open>G / n\<close> for a Python integer \<open>n\<close>: element-wise; the elements are not finite for \<open>n = 0\<close>.\<close>

definition div_scalar :: "tensor \<Rightarrow> nat \<Rightarrow> torch_error + tensor" where
  "div_scalar G n =
     (if n = 0 \<and> elems G \<noteq> [] then Inl NonFinite
      else Inr (G\<lparr>elems := map (\<lambda>g. g / real n) (elems G)\<rparr>))"

text \<open>
  \<^verbatim>\<open>
  def channelwise_gram_matrix(x, normalize=True):
      x = torch.flatten(x, 2)
      G = torch.bmm(x, x.transpose(1, 2))
      if normalize:
          return G / x.size()[-1]
      else:
          return G
  \<close>
\<close>

definition channelwise_gram_matrix :: "tensor \<Rightarrow> bool \<Rightarrow> torch_error + tensor" where
  "channelwise_gram_matrix x normalise =
     (case flatten_2 x of
        Inl e \<Rightarrow> Inl e
      | Inr x' \<Rightarrow>
          (case transpose_1_2 x' of
             Inl e \<Rightarrow> Inl e
           | Inr xt \<Rightarrow>
               (case bmm x' xt of
                  Inl e \<Rightarrow> Inl e
                | Inr G \<Rightarrow> (if normalise then div_scalar G (last (shape x')) else Inr G))))"

text \<open>The number of flattened spatial positions of an activation tensor.\<close>

definition positions :: "tensor \<Rightarrow> nat" where
  "positions x = prod_list (drop 2 (shape x))"

text \<open>
  \<open>mse_loss\<close> of the tensor library, with its default mean reduction: the two tensors
  are broadcast to a common shape (sizes are aligned from the last dimension, a size of
  one is repeated), and the squared differences are averaged over that shape.
\<close>

fun broadcast_rev :: "nat list \<Rightarrow> nat list \<Rightarrow> nat list option" where
  "broadcast_rev [] ys = Some ys"
| "broadcast_rev (x # xs) [] = Some (x # xs)"
| "broadcast_rev (x # xs) (y # ys) =
     (if x = y \<or> y = 1 then map_option ((#) x) (broadcast_rev xs ys)
      else if x = 1 then map_option ((#) y) (broadcast_rev xs ys)
      else None)"

definition broadcast_shapes :: "nat list \<Rightarrow> nat list \<Rightarrow> nat list option" where
  "broadcast_shapes s t = map_option rev (broadcast_rev (rev s) (rev t))"

fun indices :: "nat list \<Rightarrow> nat list list" where
  "indices [] = [[]]"
| "indices (d # ds) = concat (map (\<lambda>i. map ((#) i) (indices ds)) [0 ..< d])"

definition offset :: "nat list \<Rightarrow> nat list \<Rightarrow> nat" where
  "offset sh idx =
     foldl (\<lambda>acc (d, i). acc * d + (if d = 1 then 0 else i)) 0
       (zip sh (drop (length idx - length sh) idx))"

definition mse_loss :: "tensor \<Rightarrow> tensor \<Rightarrow> torch_error + real" where
  "mse_loss input target =
     (case broadcast_shapes (shape input) (shape target) of
        None \<Rightarrow> Inl NotBroadcastable
      | Some sh \<Rightarrow>
          (if indices sh = [] then Inl NonFinite
           else Inr ((\<Sum>idx\<leftarrow>indices sh.
                        (elems input ! offset (shape input) idx
                           - elems target ! offset (shape target) idx)\<^sup>2)
                     / real (length (indices sh)))))"

section \<open>Content and style loss\<close>

definition feature_reconstruction_loss :: "tensor \<Rightarrow> tensor \<Rightarrow> torch_error + real" where
  "feature_reconstruction_loss input target = mse_loss input target"

definition gram_loss :: "tensor \<Rightarrow> tensor \<Rightarrow> torch_error + real" where
  "gram_loss input target =
     (case channelwise_gram_matrix input True of
        Inl e \<Rightarrow> Inl e
      | Inr Gi \<Rightarrow>
          (case channelwise_gram_matrix target True of
             Inl e \<Rightarrow> Inl e
           | Inr Gt \<Rightarrow> mse_loss Gi Gt))"

definition in_torch :: "torch_error + 'b \<Rightarrow> torch_error error + 'b" where
  "in_torch r = (case r of Inl e \<Rightarrow> Inl (TorchError e) | Inr v \<Rightarrow> Inr v)"

definition ContentLoss_calculate_score :: "tensor \<Rightarrow> tensor \<Rightarrow> torch_error error + real" where
  "ContentLoss_calculate_score input target = in_torch (feature_reconstruction_loss input target)"

definition StyleLoss_calculate_score :: "tensor \<Rightarrow> tensor \<Rightarrow> torch_error error + real" where
  "StyleLoss_calculate_score input target = in_torch (gram_loss input target)"

definition ContentLoss_forward ::
  "tensor MultiLayerLoss \<Rightarrow> tensor list \<Rightarrow> tensor MultiLayerLoss \<times> (torch_error error + real)"
where
  "ContentLoss_forward = MultiLayerLoss_forward ContentLoss_calculate_score"

definition StyleLoss_forward ::
  "tensor MultiLayerLoss \<Rightarrow> tensor list \<Rightarrow> tensor MultiLayerLoss \<times> (torch_error error + real)"
where
  "StyleLoss_forward = MultiLayerLoss_forward StyleLoss_calculate_score"

section \<open>The optimisation criterion\<close>

text \<open>
  The targets, as the notebook sets them:
  \<^verbatim>\<open>
  target_content_encs = multi_layer_encoder(content_image, content_layers)[0]
  target_style_encs = multi_layer_encoder(style_image, style_layers)[0]
  content_loss = ContentLoss(score_weight=content_weight)
  content_loss.set_target_encs(target_content_encs)
  style_loss = StyleLoss(score_weight=style_weight)
  style_loss.set_target_encs(target_style_encs)
  \<close>
\<close>

definition first_result :: "'x error + 'b list \<Rightarrow> 'x error + 'b" where
  "first_result r =
     (case r of Inl e \<Rightarrow> Inl e | Inr [] \<Rightarrow> Inl IndexError | Inr (b # bs) \<Rightarrow> Inr b)"

definition set_targets ::
  "(string list \<Rightarrow> string list) \<Rightarrow> (tensor, torch_error) encoder \<Rightarrow> string list \<Rightarrow> string list
     \<Rightarrow> tensor \<Rightarrow> tensor \<Rightarrow> real \<Rightarrow> real
     \<Rightarrow> torch_error error + (tensor MultiLayerLoss \<times> tensor MultiLayerLoss)"
where
  "set_targets it enc content_layers style_layers content_image style_image
       content_weight style_weight =
     (case first_result (MultiLayerEncoder_forward it enc content_image [content_layers]) of
        Inl e \<Rightarrow> Inl e
      | Inr target_content_encs \<Rightarrow>
          (case first_result (MultiLayerEncoder_forward it enc style_image [style_layers]) of
             Inl e \<Rightarrow> Inl e
           | Inr target_style_encs \<Rightarrow>
               Inr (set_target_encs (MultiLayerLoss_init content_weight) target_content_encs,
                    set_target_encs (MultiLayerLoss_init style_weight) target_style_encs)))"

text \<open>
  The value that \<open>closure\<close> returns to the optimiser (gradients and printing are not
  modelled):
  \<^verbatim>\<open>
  input_encs = multi_layer_encoder(input_image, content_layers, style_layers)
  input_content_encs, input_style_encs = input_encs
  content_score = content_loss(input_content_encs)
  style_score = style_loss(input_style_encs)
  perceptual_loss = content_score + style_score
  \<close>
\<close>

definition closure ::
  "(string list \<Rightarrow> string list) \<Rightarrow> (tensor, torch_error) encoder \<Rightarrow> string list \<Rightarrow> string list
     \<Rightarrow> tensor MultiLayerLoss \<Rightarrow> tensor MultiLayerLoss \<Rightarrow> tensor \<Rightarrow> torch_error error + real"
where
  "closure it enc content_layers style_layers content_loss style_loss input_image =
     (case MultiLayerEncoder_forward it enc input_image [content_layers, style_layers] of
        Inl e \<Rightarrow> Inl e
      | Inr input_encs \<Rightarrow>
          (case input_encs of
             [input_content_encs, input_style_encs] \<Rightarrow>
               (case snd (ContentLoss_forward content_loss input_content_encs) of
                  Inl e \<Rightarrow> Inl e
                | Inr content_score \<Rightarrow>
                    (case snd (StyleLoss_forward style_loss input_style_encs) of
                       Inl e \<Rightarrow> Inl e
                     | Inr style_score \<Rightarrow> Inr (content_score + style_score)))
           | _ \<Rightarrow> Inl (UnpackValueError (length input_encs))))"

section \<open>Image pyramid scheduler\<close>

text \<open>
  Modelled from the spec: \<open>pyramid.ImagePyramid\<close> and \<open>optim.pyramid_image_optimization\<close>
  belong to the library, whose code is not among the sources; the notebook on pyramids
  only constructs the one and calls the other. The spec gives a pyramid level as a
  record of edge size, step count and edge-selection policy, in a sequence that is
  immutable once constructed, and the scheduler as the state machine
  \<open>idle \<rightarrow> running(level i) for i in 0..L-1 \<rightarrow> done\<close>: on entering a level the working
  image and the registered collaborators are resized to the level's edge size, then
  exactly \<open>num_steps\<close> iterations are delegated to the optimisation driver; a failure
  inside a level aborts the run; after the last level the final image is returned.
\<close>

datatype edge_policy = Short | Long

record pyramid_level =
  edge_size :: nat
  num_steps :: nat
  edge :: edge_policy

text \<open>
  \<open>ImagePyramid(edge_sizes, num_steps)\<close> with one step count for all levels; the edge
  sizes refer to the shorter edge by default.
\<close>

definition ImagePyramid :: "nat list \<Rightarrow> nat \<Rightarrow> pyramid_level list" where
  "ImagePyramid edge_sizes n = map (\<lambda>e. \<lparr>edge_size = e, num_steps = n, edge = Short\<rparr>) edge_sizes"

text \<open>What the scheduler does, in order: it enters level \<open>i\<close>, or delegates one step there.\<close>

datatype event = EnterLevel nat pyramid_level | DriverStep nat

text \<open>
  The driver's step at a level (the criterion resized to that level is part of it) maps
  the working image to the next one or fails.
\<close>

fun driver_steps ::
  "('img \<Rightarrow> 'e + 'img) \<Rightarrow> nat \<Rightarrow> nat \<Rightarrow> 'img \<times> event list \<Rightarrow> 'e + 'img \<times> event list"
where
  "driver_steps step i 0 (img, evs) = Inr (img, evs)"
| "driver_steps step i (Suc n) (img, evs) =
     (case step img of
        Inl e \<Rightarrow> Inl e
      | Inr img' \<Rightarrow> driver_steps step i n (img', evs @ [DriverStep i]))"

fun run_levels ::
  "(pyramid_level \<Rightarrow> 'img \<Rightarrow> 'img) \<Rightarrow> (pyramid_level \<Rightarrow> 'img \<Rightarrow> 'e + 'img) \<Rightarrow> nat
     \<Rightarrow> pyramid_level list \<Rightarrow> 'img \<times> event list \<Rightarrow> 'e + 'img \<times> event list"
where
  "run_levels resize step i [] s = Inr s"
| "run_levels resize step i (level # levels) (img, evs) =
     (case driver_steps (step level) i (num_steps level)
             (resize level img, evs @ [EnterLevel i level]) of
        Inl e \<Rightarrow> Inl e
      | Inr s \<Rightarrow> run_levels resize step (Suc i) levels s)"

definition pyramid_image_optimization ::
  "(pyramid_level \<Rightarrow> 'img \<Rightarrow> 'img) \<Rightarrow> (pyramid_level \<Rightarrow> 'img \<Rightarrow> 'e + 'img)
     \<Rightarrow> 'img \<Rightarrow> pyramid_level list \<Rightarrow> 'e + 'img \<times> event list"
where
  "pyramid_image_optimization resize step input_image pyramid =
     run_levels resize step 0 pyramid (input_image, [])"

text \<open>The events of level \<open>i\<close> when no step fails: the level is entered, then its steps run.\<close>

definition level_events :: "nat \<times> pyramid_level \<Rightarrow> event list" where
  "level_events p = EnterLevel (fst p) (snd p) # replicate (num_steps (snd p)) (DriverStep (fst p))"

text \<open>Readings of a run: the edge sizes entered, in order, and the steps delegated at a level.\<close>

fun entered_edge_sizes :: "event list \<Rightarrow> nat list" where
  "entered_edge_sizes [] = []"
| "entered_edge_sizes (EnterLevel i level # evs) = edge_size level # entered_edge_sizes evs"
| "entered_edge_sizes (DriverStep i # evs) = entered_edge_sizes evs"

fun steps_at :: "nat \<Rightarrow> event list \<Rightarrow> nat" where
  "steps_at i [] = 0"
| "steps_at i (EnterLevel j level # evs) = steps_at i evs"
| "steps_at i (DriverStep j # evs) = (if i = j then Suc (steps_at i evs) else steps_at i evs)"

fun total_steps :: "event list \<Rightarrow> nat" where
  "total_steps [] = 0"
| "total_steps (EnterLevel j level # evs) = total_steps evs"
| "total_steps (DriverStep j # evs) = Suc (total_steps evs)"

section \<open>Example inputs\<close>

text \<open>A small encoder over integers: three layers that succeed and a fourth that fails.\<close>

definition example_encoder :: "(int, unit) encoder" where
  "example_encoder =
     [(''conv1_1'', \<lambda>x. Inr (x + 1)),
      (''relu1_1'', \<lambda>x. Inr (2 * x)),
      (''pool1'', \<lambda>x. Inr (x - 5)),
      (''conv2_1'', \<lambda>x. Inl ())]"

text \<open>An image of one batch entry, two channels, one row and two columns.\<close>

definition example_image :: tensor where
  "example_image = \<lparr>shape = [1, 2, 1, 2], elems = [1, 2, 3, 4]\<rparr>"

definition example_candidate :: tensor where
  "example_candidate = \<lparr>shape = [1, 2, 1, 2], elems = [0, 1, 0, 1]\<rparr>"

text \<open>An encoder on tensors: the first layer doubles every element, the second adds one.\<close>

definition example_tensor_encoder :: "(tensor, torch_error) encoder" where
  "example_tensor_encoder =
     [(''relu1_1'', \<lambda>x. Inr (x\<lparr>elems := map (\<lambda>v. 2 * v) (elems x)\<rparr>)),
      (''relu2_1'', \<lambda>x. Inr (x\<lparr>elems := map (\<lambda>v. v + 1) (elems x)\<rparr>))]"

text \<open>
  The two loss operators with the encodings of \<open>example_image\<close> as targets: the content
  loss on the second layer, the style loss on both.
\<close>

definition example_content_loss :: "tensor MultiLayerLoss" where
  "example_content_loss =
     set_target_encs (MultiLayerLoss_init 1) [\<lparr>shape = [1, 2, 1, 2], elems = [3, 5, 7, 9]\<rparr>]"

definition example_style_loss :: "tensor MultiLayerLoss" where
  "example_style_loss =
     set_target_encs (MultiLayerLoss_init 1000)
       [\<lparr>shape = [1, 2, 1, 2], elems = [2, 4, 6, 8]\<rparr>,
        \<lparr>shape = [1, 2, 1, 2], elems = [3, 5, 7, 9]\<rparr>]"

section \<open>Properties of the multi-layer encoder\<close>

lemma list_index_None_iff: "list_index xs x = None \<longleftrightarrow> x \<notin> set xs"
  by (induction xs) auto

lemma list_index_Some_nth: "list_index xs x = Some i \<Longrightarrow> i < length xs \<and> xs ! i = x"
  by (induction xs arbitrary: i) (auto split: if_splits)

lemma list_index_nth: "distinct xs \<Longrightarrow> i < length xs \<Longrightarrow> list_index xs (xs ! i) = Some i"
proof (induction xs arbitrary: i)
  case Nil
  then show ?case by simp
next
  case (Cons y ys)
  show ?case
  proof (cases i)
    case 0
    then show ?thesis by simp
  next
    case (Suc j)
    with Cons.prems have "ys ! j \<noteq> y" by auto
    with Cons Suc show ?thesis by auto
  qed
qed

lemma depth_known: "l \<in> set names \<Longrightarrow> list_index names l = Some (depth names l)"
  by (cases "list_index names l") (auto simp: depth_def list_index_None_iff)

lemma depth_less: "l \<in> set names \<Longrightarrow> depth names l < length names"
  using depth_known list_index_Some_nth by metis

lemma nth_depth: "l \<in> set names \<Longrightarrow> names ! depth names l = l"
  using depth_known list_index_Some_nth by metis

lemma depth_nth: "distinct names \<Longrightarrow> i < length names \<Longrightarrow> depth names (names ! i) = i"
  by (simp add: depth_def list_index_nth)

lemma sorted_le_last: "sorted (xs :: nat list) \<Longrightarrow> x \<in> set xs \<Longrightarrow> x \<le> last xs"
  by (induction xs) auto

lemma find_deepest_layer_unknown:
  assumes "\<exists>l\<in>set req. l \<notin> set names"
  shows "\<exists>l. l \<in> set req \<and> l \<notin> set names \<and> find_deepest_layer names req = Inl (LayerValueError l)"
proof -
  from assms obtain l where "List.find (\<lambda>l. list_index names l = None) req = Some l"
    by (cases "List.find (\<lambda>l. list_index names l = None) req")
       (auto simp: find_None_iff list_index_None_iff)
  moreover from this have "l \<in> set req \<and> l \<notin> set names"
    by (auto simp: find_Some_iff list_index_None_iff)
  ultimately show ?thesis
    by (auto simp: find_deepest_layer_def)
qed

lemma find_deepest_layer_empty:
  "find_deepest_layer names [] = Inl IndexError"
  by (simp add: find_deepest_layer_def)

lemma find_deepest_layer_known:
  assumes "set req \<subseteq> set names" and "req \<noteq> []"
  shows "\<exists>d. find_deepest_layer names req = Inr d \<and> d \<in> set req
           \<and> (\<forall>l\<in>set req. depth names l \<le> depth names d)"
proof -
  let ?s = "sort_key (depth names) req"
  have none: "List.find (\<lambda>l. list_index names l = None) req = None"
    using assms(1) by (auto simp: find_None_iff list_index_None_iff)
  have ne: "?s \<noteq> []"
    using assms(2) by (metis length_sort length_0_conv)
  then obtain l ls where s: "?s = l # ls"
    by (cases ?s) auto
  have res: "find_deepest_layer names req = Inr (last ?s)"
    by (simp add: find_deepest_layer_def none s)
  have mem: "last ?s \<in> set req"
    using last_in_set [OF ne] by simp
  have "sorted (map (depth names) ?s)"
    by (rule sorted_sort_key)
  then have "\<forall>k\<in>set (map (depth names) ?s). k \<le> last (map (depth names) ?s)"
    using sorted_le_last by blast
  then have "\<forall>l\<in>set req. depth names l \<le> depth names (last ?s)"
    using ne by (simp add: last_map)
  with res mem show ?thesis by blast
qed

lemma find_deepest_layer_cases:
  "(\<exists>l. find_deepest_layer names req = (Inl (LayerValueError l) :: 'x error + string) \<and> l \<in> set req \<and> l \<notin> set names)
   \<or> (set req \<subseteq> set names \<and> req = [] \<and> find_deepest_layer names req = (Inl IndexError :: 'x error + string))
   \<or> (set req \<subseteq> set names \<and> req \<noteq> [] \<and> (\<exists>d. find_deepest_layer names req = (Inr d :: 'x error + string) \<and> d \<in> set req
           \<and> (\<forall>l\<in>set req. depth names l \<le> depth names d)))"
proof (cases "\<exists>l\<in>set req. l \<notin> set names")
  case True
  from find_deepest_layer_unknown [OF this] show ?thesis by blast
next
  case False
  then have sub: "set req \<subseteq> set names" by blast
  show ?thesis
  proof (cases "req = []")
    case True
    then show ?thesis by (simp add: find_deepest_layer_empty)
  next
    case False
    with find_deepest_layer_known [OF sub False] sub show ?thesis by blast
  qed
qed

lemma collect_Inl: "collect f xs = Inl e \<Longrightarrow> \<exists>x\<in>set xs. f x = Inl e"
  by (induction xs) (auto split: sum.splits)

lemma collect_Inr_map: "(\<And>x. x \<in> set xs \<Longrightarrow> f x = Inr (g x)) \<Longrightarrow> collect f xs = Inr (map g xs)"
  by (induction xs) auto



lemma set_order_remdups: "set_order remdups"
  by (simp add: set_order_def)



lemma dict_set_fresh: "k \<notin> fst ` set st \<Longrightarrow> dict_set st k v = st @ [(k, v)]"
  by (induction st) auto

lemma forward_pass_length: "forward_pass enc img = Inr ys \<Longrightarrow> length ys = length enc"
  by (induction enc img arbitrary: ys rule: forward_pass.induct) (auto split: sum.splits)

lemma forward_pass_take:
  "forward_pass enc img = Inr ys \<Longrightarrow> forward_pass (take n enc) img = Inr (take n ys)"
proof (induction enc img arbitrary: ys n rule: forward_pass.induct)
  case (1 img)
  then show ?case by simp
next
  case (2 layer mdl rest img)
  show ?case
  proof (cases n)
    case 0
    then show ?thesis by simp
  next
    case (Suc m)
    from "2.prems" obtain y zs where y: "mdl img = Inr y" and zs: "forward_pass rest y = Inr zs"
      and ys: "ys = y # zs"
      by (auto split: sum.splits)
    from "2.IH" [OF y zs] have "forward_pass (take m rest) y = Inr (take m zs)" .
    with y ys Suc show ?thesis by simp
  qed
qed

lemma run_layers_forward_pass:
  assumes "distinct (map fst enc)" and "k < length enc"
    and "fst ` set st \<inter> fst ` set enc = {}"
  shows "run_layers enc (fst (enc ! k)) img st =
           (case forward_pass (take (Suc k) enc) img of
              Inl x \<Rightarrow> Inl (TorchError x)
            | Inr ys \<Rightarrow> Inr (st @ zip (map fst (take (Suc k) enc)) ys))"
  using assms
proof (induction enc arbitrary: k img st)
  case Nil
  then show ?case by simp
next
  case (Cons p rest)
  obtain layer mdl where p: "p = (layer, mdl)" by (cases p)
  from Cons.prems(3) p have fresh: "layer \<notin> fst ` set st" by auto
  show ?case
  proof (cases k)
    case 0
    then show ?thesis
      using p fresh by (auto simp: dict_set_fresh split: sum.splits)
  next
    case (Suc j)
    with Cons.prems(2) have j: "j < length rest" by simp
    from Cons.prems(1) p have dist: "distinct (map fst rest)" and notin: "layer \<notin> fst ` set rest"
      by auto
    from j notin have ne: "layer \<noteq> fst (rest ! j)"
      by (metis image_eqI nth_mem)
    show ?thesis
    proof (cases "mdl img")
      case (Inl x)
      then show ?thesis using p Suc ne by simp
    next
      case (Inr y)
      have disj: "fst ` set (st @ [(layer, y)]) \<inter> fst ` set rest = {}"
        using Cons.prems(3) p notin by auto
      from Cons.IH [OF dist j disj, of y]
      show ?thesis
        using p Suc ne Inr fresh by (auto simp: dict_set_fresh split: sum.splits)
    qed
  qed
qed




lemma deepest_requested_eq:
  assumes "d \<in> set (concat cfgs)" and "\<forall>l\<in>set (concat cfgs). depth names l \<le> depth names d"
  shows "deepest_requested names cfgs = depth names d"
  unfolding deepest_requested_def
proof (rule Max_eqI)
  show "finite (set (map (depth names) (concat cfgs)))" by simp
  show "\<And>y. y \<in> set (map (depth names) (concat cfgs)) \<Longrightarrow> y \<le> depth names d"
    using assms(2) by auto
  show "depth names d \<in> set (map (depth names) (concat cfgs))"
    using assms(1) by auto
qed

lemma deepest_requested_ge:
  "l \<in> set (concat cfgs) \<Longrightarrow> depth names l \<le> deepest_requested names cfgs"
  unfolding deepest_requested_def by (rule Max_ge) auto

lemma find_deepest_layer_requested:
  assumes "set_order it" and "concat cfgs \<noteq> []" and "set (concat cfgs) \<subseteq> set names"
  shows "find_deepest_layer names (it (concat cfgs))
           = (Inr (names ! deepest_requested names cfgs) :: 'x error + string)
         \<and> deepest_requested names cfgs < length names
         \<and> names ! deepest_requested names cfgs \<in> set (concat cfgs)"
proof -
  let ?req = "it (concat cfgs)"
  have req: "set ?req = set (concat cfgs)"
    using assms(1) by (simp add: set_order_def)
  then have ne: "?req \<noteq> []"
    using assms(2) by (metis set_empty)
  from req assms(3) have sub: "set ?req \<subseteq> set names" by simp
  from find_deepest_layer_known [OF sub ne]
  obtain d where d: "find_deepest_layer names ?req = (Inr d :: 'x error + string)" "d \<in> set ?req"
    "\<forall>l\<in>set ?req. depth names l \<le> depth names d"
    by blast
  have k: "deepest_requested names cfgs = depth names d"
    using d req by (intro deepest_requested_eq) auto
  have dn: "d \<in> set names" using d(2) sub by blast
  show ?thesis
    using d(1,2) k dn req by (simp add: nth_depth depth_less)
qed

lemma forward_known:
  assumes so: "set_order it" and dist: "distinct (children_names enc)"
    and ne: "concat cfgs \<noteq> []" and sub: "set (concat cfgs) \<subseteq> set (children_names enc)"
  shows "MultiLayerEncoder_forward it enc img cfgs =
           (case forward_pass (take (Suc (deepest_requested (children_names enc) cfgs)) enc) img of
              Inl x \<Rightarrow> Inl (TorchError x)
            | Inr ys \<Rightarrow> Inr (map (map (\<lambda>l. ys ! depth (children_names enc) l)) cfgs))"
proof -
  let ?names = "children_names enc"
  let ?k = "deepest_requested ?names cfgs"
  from find_deepest_layer_requested [OF so ne sub]
  have f: "find_deepest_layer ?names (it (concat cfgs)) = (Inr (?names ! ?k) :: 'b error + string)"
    and k: "?k < length ?names" by auto
  have k': "?k < length enc" using k by (simp add: children_names_def)
  have nk: "?names ! ?k = fst (enc ! ?k)" using k' by (simp add: children_names_def)
  have run: "run_layers enc (?names ! ?k) img [] =
           (case forward_pass (take (Suc ?k) enc) img of
              Inl x \<Rightarrow> Inl (TorchError x)
            | Inr ys \<Rightarrow> Inr ([] @ zip (map fst (take (Suc ?k) enc)) ys))"
    unfolding nk using dist k'
    by (intro run_layers_forward_pass) (simp_all add: children_names_def)
  show ?thesis
  proof (cases "forward_pass (take (Suc ?k) enc) img")
    case (Inl x)
    then show ?thesis
      by (simp add: MultiLayerEncoder_forward_def f run)
  next
    case (Inr ys)
    let ?st = "zip (map fst (take (Suc ?k) enc)) ys"
    have len: "length ys = Suc ?k"
      using forward_pass_length [OF Inr] k' by simp
    have get: "dict_get ?st l = Inr (ys ! depth ?names l)" if l: "l \<in> set (concat cfgs)" for l
    proof -
      let ?j = "depth ?names l"
      have ln: "l \<in> set ?names" using l sub by blast
      have j: "?j \<le> ?k" using l by (rule deepest_requested_ge)
      have pre: "map fst (take (Suc ?k) enc) = take (Suc ?k) ?names"
        by (simp add: children_names_def take_map)
      have "map_of (zip (take (Suc ?k) ?names) ys) (take (Suc ?k) ?names ! ?j) = Some (ys ! ?j)"
        using len j k dist by (intro map_of_zip_nth) auto
      moreover have "take (Suc ?k) ?names ! ?j = l"
        using j ln by (simp add: nth_depth)
      ultimately show ?thesis
        by (simp add: dict_get_def pre)
    qed
    have "collect (collect (dict_get ?st)) cfgs
            = Inr (map (map (\<lambda>l. ys ! depth ?names l)) cfgs)"
      by (intro collect_Inr_map) (auto intro!: get)
    then show ?thesis
      by (simp add: MultiLayerEncoder_forward_def f run Inr)
  qed
qed

lemma nonempty_superset: "xs \<noteq> [] \<Longrightarrow> set xs \<subseteq> set ys \<Longrightarrow> ys \<noteq> []"
  by (cases xs) auto

lemma nth_nth_in_concat: "b < length xss \<Longrightarrow> j < length (xss ! b) \<Longrightarrow> xss ! b ! j \<in> set (concat xss)"
  by (metis UN_I nth_mem set_concat)

lemma forward_subset:
  assumes so: "set_order it" and so': "set_order it'" and dist: "distinct (children_names enc)"
    and ne': "concat cfgs' \<noteq> []" and sub: "set (concat cfgs) \<subseteq> set (children_names enc)"
    and sub': "set (concat cfgs') \<subseteq> set (concat cfgs)"
    and r: "MultiLayerEncoder_forward it enc img cfgs = Inr r"
  shows "\<exists>r'. MultiLayerEncoder_forward it' enc img cfgs' = Inr r'
           \<and> (\<forall>a i b j. a < length cfgs \<and> i < length (cfgs ! a) \<and> b < length cfgs'
                 \<and> j < length (cfgs' ! b) \<and> cfgs ! a ! i = cfgs' ! b ! j
               \<longrightarrow> r ! a ! i = r' ! b ! j)"
proof -
  let ?names = "children_names enc"
  let ?k = "deepest_requested ?names cfgs"
  let ?k' = "deepest_requested ?names cfgs'"
  from ne' sub' have ne: "concat cfgs \<noteq> []" by (rule nonempty_superset)
  from sub sub' have subn': "set (concat cfgs') \<subseteq> set ?names" by blast
  from forward_known [OF so dist ne sub, of img] r
  obtain ys where ys: "forward_pass (take (Suc ?k) enc) img = Inr ys"
    and r_eq: "r = map (map (\<lambda>l. ys ! depth ?names l)) cfgs"
    by (auto split: sum.splits)
  from find_deepest_layer_requested [OF so' ne' subn', where ?'x = 'b]
  have k'_len: "?k' < length ?names" and k'_mem: "?names ! ?k' \<in> set (concat cfgs')"
    by auto
  have "depth ?names (?names ! ?k') \<le> ?k"
    using k'_mem sub' by (intro deepest_requested_ge) blast
  then have k'k: "?k' \<le> ?k"
    using dist k'_len by (simp add: depth_nth)
  have "forward_pass (take (Suc ?k') (take (Suc ?k) enc)) img = Inr (take (Suc ?k') ys)"
    using ys by (rule forward_pass_take)
  then have ys': "forward_pass (take (Suc ?k') enc) img = Inr (take (Suc ?k') ys)"
    using k'k by (simp add: min_def)
  let ?r' = "map (map (\<lambda>l. take (Suc ?k') ys ! depth ?names l)) cfgs'"
  have r': "MultiLayerEncoder_forward it' enc img cfgs' = Inr ?r'"
    using forward_known [OF so' dist ne' subn', of img] ys' by simp
  have "r ! a ! i = ?r' ! b ! j"
    if "a < length cfgs" "i < length (cfgs ! a)" "b < length cfgs'" "j < length (cfgs' ! b)"
      "cfgs ! a ! i = cfgs' ! b ! j" for a i b j
  proof -
    let ?l = "cfgs' ! b ! j"
    have "?l \<in> set (concat cfgs')"
      using that(3,4) by (rule nth_nth_in_concat)
    then have "depth ?names ?l \<le> ?k'" by (rule deepest_requested_ge)
    then show ?thesis
      using that by (simp add: r_eq)
  qed
  with r' show ?thesis by blast
qed

lemma run_layers_requested:
  assumes "distinct (children_names enc)" and "k < length enc"
  shows "run_layers enc (children_names enc ! k) img [] =
           (case forward_pass (take (Suc k) enc) img of
              Inl x \<Rightarrow> Inl (TorchError x)
            | Inr ys \<Rightarrow> Inr (zip (take (Suc k) (children_names enc)) ys))"
proof -
  have "run_layers enc (fst (enc ! k)) img [] =
           (case forward_pass (take (Suc k) enc) img of
              Inl x \<Rightarrow> Inl (TorchError x)
            | Inr ys \<Rightarrow> Inr ([] @ zip (map fst (take (Suc k) enc)) ys))"
    using assms by (intro run_layers_forward_pass) (simp_all add: children_names_def)
  then show ?thesis
    using assms(2)
    by (cases "forward_pass (take (Suc k) enc) img") (simp_all add: children_names_def take_map)
qed

text \<open>
  Claim C1. For every image and every family of layer-name collections whose names the
  encoder has, at least one name being requested: \<open>forward\<close> runs the layers once, from
  the first to the deepest requested one and no further (the storage it builds holds
  exactly these activations, in order); its result gives, for each collection, the
  activations of its layers in the collection's order, or the failure of a layer on the
  way; and a second request on the same image for collections whose names are among
  the first one's succeeds whenever the first does and returns the same activation
  for every layer that both name.
\<close>

theorem forward_single_pass:
  assumes "set_order it" and "distinct (children_names enc)"
    and "concat cfgs \<noteq> []" and "set (concat cfgs) \<subseteq> set (children_names enc)"
  shows "let names = children_names enc; k = deepest_requested names cfgs in
           names ! k \<in> set (concat cfgs)
         \<and> (\<forall>l\<in>set (concat cfgs). depth names l \<le> k)
         \<and> run_layers enc (names ! k) img [] =
             (case forward_pass (take (Suc k) enc) img of
                Inl x \<Rightarrow> Inl (TorchError x)
              | Inr ys \<Rightarrow> Inr (zip (take (Suc k) names) ys))
         \<and> MultiLayerEncoder_forward it enc img cfgs =
             (case forward_pass (take (Suc k) enc) img of
                Inl x \<Rightarrow> Inl (TorchError x)
              | Inr ys \<Rightarrow> Inr (map (map (\<lambda>l. ys ! depth names l)) cfgs))
         \<and> (\<forall>it' cfgs' r.
               set_order it' \<and> concat cfgs' \<noteq> [] \<and> set (concat cfgs') \<subseteq> set (concat cfgs)
               \<and> MultiLayerEncoder_forward it enc img cfgs = Inr r
               \<longrightarrow> (\<exists>r'. MultiLayerEncoder_forward it' enc img cfgs' = Inr r'
                      \<and> (\<forall>a i b j. a < length cfgs \<and> i < length (cfgs ! a) \<and> b < length cfgs'
                            \<and> j < length (cfgs' ! b) \<and> cfgs ! a ! i = cfgs' ! b ! j
                          \<longrightarrow> r ! a ! i = r' ! b ! j)))"
proof -
  let ?names = "children_names enc"
  let ?k = "deepest_requested ?names cfgs"
  from find_deepest_layer_requested [OF assms(1,3,4), where ?'x = 'b]
  have k: "?k < length ?names" and mem: "?names ! ?k \<in> set (concat cfgs)"
    by auto
  have le: "\<forall>l\<in>set (concat cfgs). depth ?names l \<le> ?k"
    using deepest_requested_ge by blast
  have k': "?k < length enc" using k by (simp add: children_names_def)
  note run = run_layers_requested [OF assms(2) k', of img]
  note fwd = forward_known [OF assms, of img]
  have sub: "\<forall>it' cfgs' r.
               set_order it' \<and> concat cfgs' \<noteq> [] \<and> set (concat cfgs') \<subseteq> set (concat cfgs)
               \<and> MultiLayerEncoder_forward it enc img cfgs = Inr r
               \<longrightarrow> (\<exists>r'. MultiLayerEncoder_forward it' enc img cfgs' = Inr r'
                      \<and> (\<forall>a i b j. a < length cfgs \<and> i < length (cfgs ! a) \<and> b < length cfgs'
                            \<and> j < length (cfgs' ! b) \<and> cfgs ! a ! i = cfgs' ! b ! j
                          \<longrightarrow> r ! a ! i = r' ! b ! j))"
    using forward_subset [OF assms(1) _ assms(2) _ assms(4)] by blast
  from mem le run fwd sub show ?thesis
    unfolding Let_def by (intro conjI)
qed

lemma example_encoder_names:
  "children_names example_encoder = [''conv1_1'', ''relu1_1'', ''pool1'', ''conv2_1'']"
  by (simp add: children_names_def example_encoder_def)

theorem forward_single_pass_witness:
  "set_order remdups
   \<and> distinct (children_names example_encoder)
   \<and> concat [[''relu1_1'', ''conv1_1''], [''pool1'']] \<noteq> []
   \<and> set (concat [[''relu1_1'', ''conv1_1''], [''pool1'']]) \<subseteq> set (children_names example_encoder)
   \<and> deepest_requested (children_names example_encoder) [[''relu1_1'', ''conv1_1''], [''pool1'']] = 2
   \<and> MultiLayerEncoder_forward remdups example_encoder 3 [[''relu1_1'', ''conv1_1''], [''pool1'']]
       = Inr [[8, 4], [3]]
   \<and> MultiLayerEncoder_forward remdups example_encoder 3 [[''conv1_1'']] = Inr [[4]]"
proof -
  let ?cfgs = "[[''relu1_1'', ''conv1_1''], [''pool1'']]"
  have h2: "distinct (children_names example_encoder)"
    by (simp add: example_encoder_names)
  have h3: "concat ?cfgs \<noteq> []" by simp
  have h4: "set (concat ?cfgs) \<subseteq> set (children_names example_encoder)"
    by (simp add: example_encoder_names)
  have k: "deepest_requested (children_names example_encoder) ?cfgs = 2"
    by (simp add: example_encoder_names deepest_requested_def depth_def)
  have pass: "forward_pass (take 3 example_encoder) 3 = Inr [4, 8, 3]"
    by (simp add: example_encoder_def)
  note t = forward_single_pass [OF set_order_remdups h2 h3 h4, of 3, unfolded Let_def k]
  from t have "MultiLayerEncoder_forward remdups example_encoder 3 ?cfgs =
      (case forward_pass (take (Suc 2) example_encoder) 3 of
         Inl x \<Rightarrow> Inl (TorchError x)
       | Inr ys \<Rightarrow> Inr (map (map (\<lambda>l. ys ! depth (children_names example_encoder) l)) ?cfgs))"
    by blast
  then have fwd: "MultiLayerEncoder_forward remdups example_encoder 3 ?cfgs = Inr [[8, 4], [3]]"
    by (simp add: pass example_encoder_names depth_def)
  have "set_order remdups \<and> concat [[''conv1_1'']] \<noteq> []
        \<and> set (concat [[''conv1_1'']]) \<subseteq> set (concat ?cfgs)
        \<and> MultiLayerEncoder_forward remdups example_encoder 3 ?cfgs = Inr [[8, 4], [3]]"
    using fwd by (simp add: set_order_remdups)
  with t obtain r' where r': "MultiLayerEncoder_forward remdups example_encoder 3 [[''conv1_1'']] = Inr r'"
    and eq: "\<forall>a i b j. a < length ?cfgs \<and> i < length (?cfgs ! a) \<and> b < length [[''conv1_1'']]
                \<and> j < length ([[''conv1_1'']] ! b) \<and> ?cfgs ! a ! i = [[''conv1_1'']] ! b ! j
              \<longrightarrow> [[8, 4], [3]] ! a ! i = r' ! b ! j"
    by blast
  have sub: "MultiLayerEncoder_forward remdups example_encoder 3 [[''conv1_1'']] = Inr [[4]]"
    by code_simp
  from h2 h3 h4 k fwd sub show ?thesis
    by (simp only: set_order_remdups simp_thms)
qed









section \<open>Properties of the multi-layer loss\<close>

lemma register_buffers_below:
  "j < n \<Longrightarrow> fold (\<lambda>(idx, enc) b. register_buffer b idx enc) (enumerate n encs) b j = b j"
  by (induction encs arbitrary: n b) (auto simp: register_buffer_def)

lemma register_buffers_nth:
  "i < length encs \<Longrightarrow>
     fold (\<lambda>(idx, enc) b. register_buffer b idx enc) (enumerate n encs) b (n + i) = Some (encs ! i)"
proof (induction encs arbitrary: n b i)
  case Nil
  then show ?case by simp
next
  case (Cons e es)
  show ?case
  proof (cases i)
    case 0
    have "fold (\<lambda>(idx, enc) b. register_buffer b idx enc) (enumerate (Suc n) es)
            (register_buffer b n e) n = register_buffer b n e n"
      by (rule register_buffers_below) simp
    moreover have "register_buffer b n e n = Some e"
      by (simp add: register_buffer_def)
    ultimately show ?thesis using 0 by simp
  next
    case (Suc j)
    with Cons.prems have "j < length es" by simp
    from Cons.IH [OF this, of "Suc n" "register_buffer b n e"] Suc show ?thesis by simp
  qed
qed

lemma numel_set_target_encs [simp]:
  "numel_target_encs (set_target_encs self encs) = length encs"
  by (simp add: set_target_encs_def)

lemma score_weight_set_target_encs [simp]:
  "score_weight (set_target_encs self encs) = score_weight self"
  by (simp add: set_target_encs_def)

lemma target_encs_set_target_encs:
  "target_encs (set_target_encs self encs) = Inr encs"
proof -
  have "buffers (set_target_encs self encs) idx = Some (encs ! idx)" if "idx < length encs" for idx
    using register_buffers_nth [OF that, of 0 "buffers self"] by (simp add: set_target_encs_def)
  then have "collect (\<lambda>idx. case buffers (set_target_encs self encs) idx of
                 None \<Rightarrow> Inl (AttributeError idx) | Some enc \<Rightarrow> Inr enc) [0 ..< length encs]
             = Inr (map (\<lambda>idx. encs ! idx) [0 ..< length encs])"
    by (intro collect_Inr_map) simp
  then show ?thesis
    by (simp add: target_encs_def map_nth)
qed

lemma collect_length: "collect f xs = Inr ys \<Longrightarrow> length ys = length xs"
  by (induction xs arbitrary: ys) (auto split: sum.splits)

lemma collect_nth: "collect f xs = Inr ys \<Longrightarrow> i < length xs \<Longrightarrow> f (xs ! i) = Inr (ys ! i)"
proof (induction xs arbitrary: ys i)
  case Nil
  then show ?case by simp
next
  case (Cons x xs)
  then show ?case
    by (cases i) (auto split: sum.splits)
qed

lemma collect_Inr_iff:
  "collect f xs = Inr ys \<longleftrightarrow> length ys = length xs \<and> (\<forall>i<length xs. f (xs ! i) = Inr (ys ! i))"
proof
  assume "collect f xs = Inr ys"
  then show "length ys = length xs \<and> (\<forall>i<length xs. f (xs ! i) = Inr (ys ! i))"
    using collect_length collect_nth by blast
next
  assume a: "length ys = length xs \<and> (\<forall>i<length xs. f (xs ! i) = Inr (ys ! i))"
  then show "collect f xs = Inr ys"
  proof (induction xs arbitrary: ys)
    case Nil
    then show ?case by simp
  next
    case (Cons x xs)
    then obtain y ys' where ys: "ys = y # ys'" by (cases ys) auto
    from Cons.prems ys have "f x = Inr y" by auto
    moreover from Cons.prems ys have "length ys' = length xs \<and> (\<forall>i<length xs. f (xs ! i) = Inr (ys' ! i))"
      by auto
    from Cons.IH [OF this] have "collect f xs = Inr ys'" .
    ultimately show ?case using ys by simp
  qed
qed

lemma forward_leaves_operator: "fst (MultiLayerLoss_forward calc self input_encs) = self"
  by (simp add: MultiLayerLoss_forward_def)

lemma forward_count_mismatch:
  "length input_encs \<noteq> numel_target_encs self \<Longrightarrow>
     snd (MultiLayerLoss_forward calc self input_encs)
       = Inl (EncodingCountError (length input_encs) (numel_target_encs self))"
  by (simp add: MultiLayerLoss_forward_def)

lemma forward_Inr_D:
  fixes calc :: "'enc \<Rightarrow> 'enc \<Rightarrow> 'x error + real"
  assumes "snd (MultiLayerLoss_forward calc self input_encs) = Inr v"
  shows "length input_encs = numel_target_encs self \<and> 0 < numel_target_encs self
         \<and> (\<exists>targets layer_losses. target_encs self = (Inr targets :: 'x error + 'enc list)
              \<and> collect (\<lambda>(input, target). calc input target) (zip input_encs targets) = Inr layer_losses
              \<and> layer_losses \<noteq> []
              \<and> v = sum_list layer_losses / real (length layer_losses) * score_weight self)"
proof -
  from assms have len: "length input_encs = numel_target_encs self"
    by (auto simp: MultiLayerLoss_forward_def split: if_splits)
  from assms len obtain targets where t: "target_encs self = (Inr targets :: 'x error + 'enc list)"
    by (auto simp: MultiLayerLoss_forward_def split: sum.splits)
  from assms len t obtain ls where
    ls: "collect (\<lambda>(input, target). calc input target) (zip input_encs targets) = Inr ls"
    by (auto simp: MultiLayerLoss_forward_def split: sum.splits)
  from assms len t ls have ne: "ls \<noteq> []"
    and v: "v = sum_list ls / real (length ls) * score_weight self"
    by (auto simp: MultiLayerLoss_forward_def mean_def split: sum.splits if_splits)
  have "length targets = numel_target_encs self"
    using t collect_length by (fastforce simp: target_encs_def)
  with collect_length [OF ls] len ne have "0 < numel_target_encs self"
    by (metis length_greater_0_conv length_zip min.idem)
  with len t ls ne v show ?thesis by blast
qed

lemma forward_scores:
  assumes "length input_encs = length targets" and "input_encs \<noteq> []"
    and "collect (\<lambda>(input, target). calc input target) (zip input_encs targets) = Inr scores"
  shows "snd (MultiLayerLoss_forward calc (set_target_encs self targets) input_encs)
           = Inr (sum_list scores / real (length scores) * score_weight self)"
proof -
  have "length scores = length input_encs"
    using collect_length [OF assms(3)] assms(1) by simp
  then have "scores \<noteq> []" using assms(2) by auto
  then show ?thesis
    using assms by (simp add: MultiLayerLoss_forward_def target_encs_set_target_encs mean_def)
qed

lemma collect_total: "(\<And>x. x \<in> set xs \<Longrightarrow> \<exists>y. f x = Inr y) \<Longrightarrow> \<exists>ys. collect f xs = Inr ys"
proof (induction xs)
  case Nil
  then show ?case by simp
next
  case (Cons x xs)
  from Cons.prems obtain y where "f x = Inr y" by auto
  moreover from Cons obtain ys where "collect f xs = Inr ys" by auto
  ultimately show ?case by simp
qed

lemma target_encs_error:
  "target_encs self = Inl e \<Longrightarrow> \<exists>idx. e = AttributeError idx"
proof -
  assume "target_encs self = Inl e"
  then obtain idx where
    "(case buffers self idx of None \<Rightarrow> Inl (AttributeError idx) | Some enc \<Rightarrow> Inr enc) = Inl e"
    unfolding target_encs_def using collect_Inl by fastforce
  then show ?thesis by (auto split: option.splits)
qed

lemma broadcast_rev_same: "broadcast_rev xs xs = Some xs"
  by (induction xs) auto

lemma broadcast_shapes_same: "broadcast_shapes s s = Some s"
  by (simp add: broadcast_shapes_def broadcast_rev_same)

lemma sum_list_zero: "(\<And>x. x \<in> set xs \<Longrightarrow> f x = (0::real)) \<Longrightarrow> (\<Sum>x\<leftarrow>xs. f x) = 0"
  by (induction xs) auto

lemma mse_loss_self: "indices (shape x) \<noteq> [] \<Longrightarrow> mse_loss x x = Inr 0"
  by (simp add: mse_loss_def broadcast_shapes_same)

lemma mse_loss_self_cases: "mse_loss x x = Inr 0 \<or> mse_loss x x = Inl NonFinite"
  by (simp add: mse_loss_def broadcast_shapes_same)

lemma mse_loss_nonneg: "mse_loss x y = Inr v \<Longrightarrow> 0 \<le> v"
  by (auto simp: mse_loss_def split: option.splits if_splits intro!: divide_nonneg_nonneg sum_list_nonneg)

lemma length_indices: "length (indices sh) = prod_list sh"
  by (induction sh) (simp_all add: length_concat comp_def sum_list_triv)

lemma indices_nonempty: "0 < prod_list sh \<Longrightarrow> indices sh \<noteq> []"
  using length_indices [of sh] by auto

lemma example_image_indices: "indices (shape example_image) \<noteq> []"
  by (rule indices_nonempty) (simp add: example_image_def)

lemma hooks_never_count_error:
  "ContentLoss_calculate_score input target \<noteq> Inl (EncodingCountError a b)"
  "StyleLoss_calculate_score input target \<noteq> Inl (EncodingCountError a b)"
  "calculate_score_base input target \<noteq> Inl (EncodingCountError a b)"
  by (simp_all add: ContentLoss_calculate_score_def StyleLoss_calculate_score_def
      calculate_score_base_def in_torch_def split: sum.splits)

lemma ContentLoss_score_self:
  "indices (shape x) \<noteq> [] \<Longrightarrow> ContentLoss_calculate_score x x = Inr 0"
  by (simp add: ContentLoss_calculate_score_def feature_reconstruction_loss_def in_torch_def
      mse_loss_self)

text \<open>
  Claim C4. A loss operator without stored target encodings (as constructed, the
  count of targets is zero) does not score: a call with a non-empty list of input
  encodings ends in the \<open>RuntimeError\<close> of the count check, and no call returns a value.
  A call that returns a value was made on an operator with targets stored, as many as
  inputs given; and once targets are stored, a call with as many inputs returns a value
  whenever the subclass scores every pair.
\<close>

theorem uninitialized_loss_not_configured:
  fixes calc :: "'enc \<Rightarrow> 'enc \<Rightarrow> 'x error + real"
  shows "numel_target_encs (MultiLayerLoss_init w :: 'enc MultiLayerLoss) = 0
       \<and> (numel_target_encs self = 0 \<and> input_encs \<noteq> []
            \<longrightarrow> snd (MultiLayerLoss_forward calc self input_encs)
                  = Inl (EncodingCountError (length input_encs) 0))
       \<and> (numel_target_encs self = 0
            \<longrightarrow> (\<forall>v. snd (MultiLayerLoss_forward calc self input_encs) \<noteq> Inr v))
       \<and> (snd (MultiLayerLoss_forward calc self input_encs) = Inr v
            \<longrightarrow> 0 < numel_target_encs self \<and> length input_encs = numel_target_encs self)
       \<and> (targets \<noteq> [] \<and> length inputs = length targets
             \<and> (\<forall>i<length targets. \<exists>s. calc (inputs ! i) (targets ! i) = Inr s)
            \<longrightarrow> (\<exists>v. snd (MultiLayerLoss_forward calc (set_target_encs self targets) inputs) = Inr v))"
proof (intro conjI impI allI)
  show "numel_target_encs (MultiLayerLoss_init w :: 'enc MultiLayerLoss) = 0"
    by (simp add: MultiLayerLoss_init_def)
next
  assume "numel_target_encs self = 0 \<and> input_encs \<noteq> []"
  then show "snd (MultiLayerLoss_forward calc self input_encs)
               = Inl (EncodingCountError (length input_encs) 0)"
    using forward_count_mismatch [of input_encs self calc] by simp
next
  fix v'
  assume "numel_target_encs self = 0"
  then show "snd (MultiLayerLoss_forward calc self input_encs) \<noteq> Inr v'"
    using forward_Inr_D [of calc self input_encs v'] by auto
next
  assume "snd (MultiLayerLoss_forward calc self input_encs) = Inr v"
  from forward_Inr_D [OF this]
  show "0 < numel_target_encs self" and "length input_encs = numel_target_encs self"
    by simp_all
next
  assume a: "targets \<noteq> [] \<and> length inputs = length targets
             \<and> (\<forall>i<length targets. \<exists>s. calc (inputs ! i) (targets ! i) = Inr s)"
  have "\<exists>y. (\<lambda>(input, target). calc input target) p = Inr y" if "p \<in> set (zip inputs targets)" for p
  proof -
    from that obtain i where "i < length targets" "p = (inputs ! i, targets ! i)"
      by (auto simp: in_set_zip)
    with a show ?thesis by auto
  qed
  then obtain scores where
    "collect (\<lambda>(input, target). calc input target) (zip inputs targets) = Inr scores"
    using collect_total by blast
  moreover from a have "length inputs = length targets" "inputs \<noteq> []" by auto
  ultimately show "\<exists>v. snd (MultiLayerLoss_forward calc (set_target_encs self targets) inputs) = Inr v"
    using forward_scores by blast
qed

theorem uninitialized_loss_not_configured_witness:
  "numel_target_encs (MultiLayerLoss_init 1 :: tensor MultiLayerLoss) = 0
   \<and> [example_image] \<noteq> []
   \<and> snd (ContentLoss_forward (MultiLayerLoss_init 1) [example_image])
       = Inl (EncodingCountError 1 0)
   \<and> length [example_image] = length [example_image]
   \<and> ContentLoss_calculate_score example_image example_image = Inr 0
   \<and> (\<exists>v. snd (ContentLoss_forward (set_target_encs (MultiLayerLoss_init 1) [example_image])
              [example_image]) = Inr v)"
proof -
  note t = uninitialized_loss_not_configured [where w = 1 and self = "MultiLayerLoss_init 1"
      and input_encs = "[example_image]" and calc = ContentLoss_calculate_score
      and targets = "[example_image]" and inputs = "[example_image]"]
  have z: "numel_target_encs (MultiLayerLoss_init 1 :: tensor MultiLayerLoss) = 0"
    using t by blast
  have s: "ContentLoss_calculate_score example_image example_image = Inr 0"
    using example_image_indices by (rule ContentLoss_score_self)
  from t z have e: "snd (ContentLoss_forward (MultiLayerLoss_init 1) [example_image])
       = Inl (EncodingCountError 1 0)"
    by (simp add: ContentLoss_forward_def)
  have "[example_image] \<noteq> [] \<and> length [example_image] = length [example_image]
        \<and> (\<forall>i<length [example_image].
              \<exists>s. ContentLoss_calculate_score ([example_image] ! i) ([example_image] ! i) = Inr s)"
    using s by simp
  with t have "\<exists>v. snd (MultiLayerLoss_forward ContentLoss_calculate_score
      (set_target_encs (MultiLayerLoss_init 1) [example_image]) [example_image]) = Inr v"
    by blast
  with z e s show ?thesis
    by (simp add: ContentLoss_forward_def)
qed

text \<open>
  Claim C9. For a subclass whose \<open>calculate_score\<close> does not itself raise the error of
  the count check (none of the three in the notebook does), \<open>forward\<close> ends in that
  error exactly when the number of input encodings differs from the number of stored
  target encodings, also after targets were stored; the error reports both numbers;
  and the call leaves the operator as it was: score weight, target count and stored
  targets.
\<close>

theorem forward_count_error_iff:
  fixes calc :: "'enc \<Rightarrow> 'enc \<Rightarrow> 'x error + real"
  assumes "\<forall>input target a b. calc input target \<noteq> Inl (EncodingCountError a b)"
  shows "((\<exists>a b. snd (MultiLayerLoss_forward calc self input_encs) = Inl (EncodingCountError a b))
            \<longleftrightarrow> length input_encs \<noteq> numel_target_encs self)
       \<and> (length input_encs \<noteq> numel_target_encs self
            \<longrightarrow> snd (MultiLayerLoss_forward calc self input_encs)
                  = Inl (EncodingCountError (length input_encs) (numel_target_encs self)))
       \<and> (length input_encs \<noteq> length targets
            \<longrightarrow> snd (MultiLayerLoss_forward calc (set_target_encs self targets) input_encs)
                  = Inl (EncodingCountError (length input_encs) (length targets)))
       \<and> fst (MultiLayerLoss_forward calc self input_encs) = self
       \<and> score_weight (fst (MultiLayerLoss_forward calc self input_encs)) = score_weight self
       \<and> numel_target_encs (fst (MultiLayerLoss_forward calc self input_encs)) = numel_target_encs self
       \<and> (target_encs (fst (MultiLayerLoss_forward calc self input_encs)) :: 'x error + 'enc list)
           = target_encs self"
proof -
  have no: "snd (MultiLayerLoss_forward calc self input_encs) \<noteq> Inl (EncodingCountError a b)"
    if eq: "length input_encs = numel_target_encs self" for a b
  proof
    assume r: "snd (MultiLayerLoss_forward calc self input_encs) = Inl (EncodingCountError a b)"
    show False
    proof (cases "target_encs self :: 'x error + 'enc list")
      case (Inl e)
      with r eq have "e = EncodingCountError a b"
        by (simp add: MultiLayerLoss_forward_def)
      with target_encs_error [OF Inl] show False by auto
    next
      case targets: (Inr ts)
      show False
      proof (cases "collect (\<lambda>(input, target). calc input target) (zip input_encs ts)")
        case (Inl e)
        with r eq targets have "e = EncodingCountError a b"
          by (simp add: MultiLayerLoss_forward_def)
        with collect_Inl [OF Inl] assms show False by auto
      next
        case (Inr ls)
        with r eq targets show False
          by (auto simp: MultiLayerLoss_forward_def mean_def split: if_splits)
      qed
    qed
  qed
  have yes: "snd (MultiLayerLoss_forward calc s input_encs)
               = Inl (EncodingCountError (length input_encs) (numel_target_encs s))"
    if "length input_encs \<noteq> numel_target_encs s" for s :: "'enc MultiLayerLoss"
    using that by (rule forward_count_mismatch)
  have iff: "(\<exists>a b. snd (MultiLayerLoss_forward calc self input_encs) = Inl (EncodingCountError a b))
            \<longleftrightarrow> length input_encs \<noteq> numel_target_encs self"
    using no yes by blast
  have set: "length input_encs \<noteq> length targets
            \<longrightarrow> snd (MultiLayerLoss_forward calc (set_target_encs self targets) input_encs)
                  = Inl (EncodingCountError (length input_encs) (length targets))"
    using yes [of "set_target_encs self targets"] by simp
  show ?thesis
    using iff yes [of self] set by (simp add: forward_leaves_operator)
qed

theorem forward_count_error_iff_witness:
  "(\<forall>input target a b. ContentLoss_calculate_score input target \<noteq> Inl (EncodingCountError a b))
   \<and> length [example_image, example_candidate] \<noteq> length [example_image]
   \<and> snd (ContentLoss_forward (set_target_encs (MultiLayerLoss_init 1) [example_image])
            [example_image, example_candidate])
       = Inl (EncodingCountError 2 1)
   \<and> fst (ContentLoss_forward (set_target_encs (MultiLayerLoss_init 1) [example_image])
            [example_image, example_candidate])
       = set_target_encs (MultiLayerLoss_init 1) [example_image]"
proof -
  have h: "\<forall>input target a b. ContentLoss_calculate_score input target \<noteq> Inl (EncodingCountError a b)"
    by (simp add: hooks_never_count_error)
  note t = forward_count_error_iff [OF h, where self = "MultiLayerLoss_init 1"
      and input_encs = "[example_image, example_candidate]" and targets = "[example_image]"]
  have "length [example_image, example_candidate] \<noteq> length [example_image]" by simp
  with t h show ?thesis
    by (simp add: ContentLoss_forward_def forward_leaves_operator)
qed






section \<open>Properties of the criterion\<close>

lemma example_targets:
  "set_targets remdups example_tensor_encoder [''relu2_1''] [''relu1_1'', ''relu2_1'']
     example_image example_image 1 1000 = Inr (example_content_loss, example_style_loss)"
  by (simp add: set_targets_def first_result_def MultiLayerEncoder_forward_def
      find_deepest_layer_def children_names_def example_tensor_encoder_def depth_def dict_get_def
      example_image_def example_content_loss_def example_style_loss_def)

lemma example_closure:
  "closure remdups example_tensor_encoder [''relu2_1''] [''relu1_1'', ''relu2_1'']
     example_content_loss example_style_loss example_candidate = Inr 1060020"
  by code_simp

lemma example_closure_self:
  "closure remdups example_tensor_encoder [''relu2_1''] [''relu1_1'', ''relu2_1'']
     example_content_loss example_style_loss example_image = Inr 0"
  by code_simp

lemma closure_Inr_iff:
  "closure it enc content_layers style_layers content_loss style_loss input_image = Inr v
     \<longleftrightarrow> (\<exists>input_content_encs input_style_encs content_score style_score.
            MultiLayerEncoder_forward it enc input_image [content_layers, style_layers]
              = Inr [input_content_encs, input_style_encs]
          \<and> snd (ContentLoss_forward content_loss input_content_encs) = Inr content_score
          \<and> snd (StyleLoss_forward style_loss input_style_encs) = Inr style_score
          \<and> v = content_score + style_score)"
  unfolding closure_def
  by (auto split: sum.splits list.splits)

text \<open>
  Claim C8. The value that \<open>closure\<close> returns for a candidate image, the value handed to
  the optimiser, is the content operator's score on the candidate's content encodings
  plus the style operator's score on its style encodings: it returns a value exactly
  when the encoder and both operators do, and then this sum. Both operators have
  targets stored whenever a value is returned.
\<close>

theorem closure_is_content_plus_style:
  "(closure it enc content_layers style_layers content_loss style_loss input_image = Inr v
     \<longleftrightarrow> (\<exists>input_content_encs input_style_encs content_score style_score.
            MultiLayerEncoder_forward it enc input_image [content_layers, style_layers]
              = Inr [input_content_encs, input_style_encs]
          \<and> snd (ContentLoss_forward content_loss input_content_encs) = Inr content_score
          \<and> snd (StyleLoss_forward style_loss input_style_encs) = Inr style_score
          \<and> v = content_score + style_score))
   \<and> (closure it enc content_layers style_layers content_loss style_loss input_image = Inr v
        \<longrightarrow> 0 < numel_target_encs content_loss \<and> 0 < numel_target_encs style_loss)"
proof (intro conjI impI)
  show "closure it enc content_layers style_layers content_loss style_loss input_image = Inr v
     \<longleftrightarrow> (\<exists>input_content_encs input_style_encs content_score style_score.
            MultiLayerEncoder_forward it enc input_image [content_layers, style_layers]
              = Inr [input_content_encs, input_style_encs]
          \<and> snd (ContentLoss_forward content_loss input_content_encs) = Inr content_score
          \<and> snd (StyleLoss_forward style_loss input_style_encs) = Inr style_score
          \<and> v = content_score + style_score)"
    by (rule closure_Inr_iff)
next
  assume "closure it enc content_layers style_layers content_loss style_loss input_image = Inr v"
  then obtain ce se c s where
    c: "snd (ContentLoss_forward content_loss ce) = Inr c"
    and s: "snd (StyleLoss_forward style_loss se) = Inr s"
    unfolding closure_Inr_iff by blast
  from forward_Inr_D [OF c [unfolded ContentLoss_forward_def]]
  show "0 < numel_target_encs content_loss" by simp
  from forward_Inr_D [OF s [unfolded StyleLoss_forward_def]]
  show "0 < numel_target_encs style_loss" by simp
qed

theorem closure_is_content_plus_style_witness:
  "closure remdups example_tensor_encoder [''relu2_1''] [''relu1_1'', ''relu2_1'']
     example_content_loss example_style_loss example_candidate = Inr 1060020
   \<and> (\<exists>input_content_encs input_style_encs content_score style_score.
         MultiLayerEncoder_forward remdups example_tensor_encoder example_candidate
             [[''relu2_1''], [''relu1_1'', ''relu2_1'']]
           = Inr [input_content_encs, input_style_encs]
       \<and> snd (ContentLoss_forward example_content_loss input_content_encs) = Inr content_score
       \<and> snd (StyleLoss_forward example_style_loss input_style_encs) = Inr style_score
       \<and> 1060020 = content_score + style_score)
   \<and> 0 < numel_target_encs example_content_loss \<and> 0 < numel_target_encs example_style_loss"
  using closure_is_content_plus_style [of remdups example_tensor_encoder "[''relu2_1'']"
      "[''relu1_1'', ''relu2_1'']" example_content_loss example_style_loss example_candidate
      1060020] example_closure
  by blast

lemma forward_Inr_requested:
  fixes enc :: "('a, 'x) encoder"
  assumes "set_order it" and "MultiLayerEncoder_forward it enc img cfgs = Inr r"
  shows "concat cfgs \<noteq> [] \<and> set (concat cfgs) \<subseteq> set (children_names enc)"
proof -
  let ?req = "it (concat cfgs)"
  have req: "set ?req = set (concat cfgs)"
    using assms(1) by (simp add: set_order_def)
  obtain d where "find_deepest_layer (children_names enc) ?req = (Inr d :: 'x error + string)"
    using assms(2) by (auto simp: MultiLayerEncoder_forward_def split: sum.splits)
  with find_deepest_layer_cases [of "children_names enc" ?req, where ?'x = 'x]
  have "set ?req \<subseteq> set (children_names enc)" and "?req \<noteq> []"
    by auto
  with req show ?thesis
    by (metis set_empty)
qed

lemma deepest_requested_two:
  assumes "cl \<noteq> []" and "sl \<noteq> []"
  shows "deepest_requested names [cl, sl]
           = max (deepest_requested names [cl]) (deepest_requested names [sl])"
proof -
  have "set (map (depth names) (concat [cl, sl]))
          = set (map (depth names) (concat [cl])) \<union> set (map (depth names) (concat [sl]))"
    by auto
  moreover have "set (map (depth names) (concat [cl])) \<noteq> {}" "set (map (depth names) (concat [sl])) \<noteq> {}"
    using assms by simp_all
  ultimately show ?thesis
    unfolding deepest_requested_def by (metis Max_Un List.finite_set)
qed

lemma forward_two:
  fixes enc :: "('a, 'x) encoder"
  assumes so: "set_order it" and dist: "distinct (children_names enc)"
    and c: "MultiLayerEncoder_forward it enc img [cl] = Inr [tc]"
    and s: "MultiLayerEncoder_forward it enc img [sl] = Inr [ts]"
  shows "MultiLayerEncoder_forward it enc img [cl, sl] = Inr [tc, ts]"
proof -
  let ?names = "children_names enc"
  let ?kc = "deepest_requested ?names [cl]"
  let ?ks = "deepest_requested ?names [sl]"
  let ?k = "deepest_requested ?names [cl, sl]"
  from forward_Inr_requested [OF so c] have cne: "cl \<noteq> []" and csub: "set cl \<subseteq> set ?names"
    by simp_all
  from forward_Inr_requested [OF so s] have sne: "sl \<noteq> []" and ssub: "set sl \<subseteq> set ?names"
    by simp_all
  have ne1: "concat [cl] \<noteq> []" and sub1: "set (concat [cl]) \<subseteq> set ?names"
    using cne csub by simp_all
  have ne2: "concat [sl] \<noteq> []" and sub2: "set (concat [sl]) \<subseteq> set ?names"
    using sne ssub by simp_all
  have ne: "concat [cl, sl] \<noteq> []" and sub: "set (concat [cl, sl]) \<subseteq> set ?names"
    using cne csub ssub by simp_all
  from forward_known [OF so dist ne1 sub1, of img] c
  obtain yc where yc: "forward_pass (take (Suc ?kc) enc) img = Inr yc"
    and tc: "tc = map (\<lambda>l. yc ! depth ?names l) cl"
    by (auto split: sum.splits)
  from forward_known [OF so dist ne2 sub2, of img] s
  obtain ys where ys: "forward_pass (take (Suc ?ks) enc) img = Inr ys"
    and ts: "ts = map (\<lambda>l. ys ! depth ?names l) sl"
    by (auto split: sum.splits)
  have k: "?k = max ?kc ?ks"
    using cne sne by (rule deepest_requested_two)
  then obtain y where y: "forward_pass (take (Suc ?k) enc) img = Inr y"
    using yc ys by (cases "?kc \<le> ?ks") (auto simp: max_def)
  have "forward_pass (take (Suc ?kc) (take (Suc ?k) enc)) img = Inr (take (Suc ?kc) y)"
    using y by (rule forward_pass_take)
  then have yc_eq: "yc = take (Suc ?kc) y"
    using yc k by (simp add: min_def max_def split: if_splits)
  have "forward_pass (take (Suc ?ks) (take (Suc ?k) enc)) img = Inr (take (Suc ?ks) y)"
    using y by (rule forward_pass_take)
  then have ys_eq: "ys = take (Suc ?ks) y"
    using ys k by (simp add: min_def max_def split: if_splits)
  have "tc = map (\<lambda>l. y ! depth ?names l) cl"
    unfolding tc
  proof (rule map_cong [OF refl])
    fix l assume "l \<in> set cl"
    then have "depth ?names l \<le> ?kc"
      using deepest_requested_ge [of l "[cl]" ?names] by simp
    then show "yc ! depth ?names l = y ! depth ?names l"
      by (simp add: yc_eq)
  qed
  moreover have "ts = map (\<lambda>l. y ! depth ?names l) sl"
    unfolding ts
  proof (rule map_cong [OF refl])
    fix l assume "l \<in> set sl"
    then have "depth ?names l \<le> ?ks"
      using deepest_requested_ge [of l "[sl]" ?names] by simp
    then show "ys ! depth ?names l = y ! depth ?names l"
      by (simp add: ys_eq)
  qed
  ultimately show ?thesis
    using forward_known [OF so dist ne sub, of img] y by simp
qed

lemma forward_single_length:
  fixes enc :: "('a, 'x) encoder"
  assumes "MultiLayerEncoder_forward it enc img [cl] = Inr r"
  shows "\<exists>t. r = [t] \<and> length t = length cl"
proof -
  from assms obtain st where "collect (collect (dict_get st :: string \<Rightarrow> 'x error + 'a)) [cl] = Inr r"
    by (auto simp: MultiLayerEncoder_forward_def split: sum.splits)
  then obtain t where "collect (dict_get st :: string \<Rightarrow> 'x error + 'a) cl = Inr t" and "r = [t]"
    by (auto split: sum.splits)
  with collect_length show ?thesis by blast
qed

lemma collect_self:
  fixes f :: "'b \<times> 'b \<Rightarrow> 'x error + real"
  assumes "\<And>x. f (x, x) = Inr 0 \<or> (\<exists>e. f (x, x) = Inl (TorchError e))"
  shows "collect f (zip xs xs) = Inr (replicate (length xs) 0)
         \<or> (\<exists>e. collect f (zip xs xs) = Inl (TorchError e))"
proof (induction xs)
  case Nil
  then show ?case by simp
next
  case (Cons x xs)
  from assms [of x] Cons show ?case by auto
qed

lemma loss_forward_self:
  fixes calc :: "'enc \<Rightarrow> 'enc \<Rightarrow> 'x error + real"
  assumes "\<And>x. calc x x = Inr 0 \<or> (\<exists>e. calc x x = Inl (TorchError e))" and "encs \<noteq> []"
  shows "snd (MultiLayerLoss_forward calc (set_target_encs self encs) encs) = Inr 0
         \<or> (\<exists>e. snd (MultiLayerLoss_forward calc (set_target_encs self encs) encs)
                  = Inl (TorchError e))"
proof -
  have "\<And>x. (\<lambda>(input, target). calc input target) (x, x) = Inr 0
            \<or> (\<exists>e. (\<lambda>(input, target). calc input target) (x, x) = Inl (TorchError e))"
    using assms(1) by simp
  from collect_self [of "\<lambda>(input, target). calc input target", OF this, of encs]
  show ?thesis
  proof
    assume c: "collect (\<lambda>(input, target). calc input target) (zip encs encs)
                 = Inr (replicate (length encs) 0)"
    have "snd (MultiLayerLoss_forward calc (set_target_encs self encs) encs)
            = Inr (sum_list (replicate (length encs) 0) / real (length (replicate (length encs) (0::real)))
                   * score_weight self)"
      using refl assms(2) c by (rule forward_scores)
    then show ?thesis by (simp add: sum_list_replicate)
  next
    assume "\<exists>e. collect (\<lambda>(input, target). calc input target) (zip encs encs) = Inl (TorchError e)"
    then show ?thesis
      by (auto simp: MultiLayerLoss_forward_def target_encs_set_target_encs)
  qed
qed

lemma ContentLoss_self:
  "ContentLoss_calculate_score x x = Inr 0
   \<or> (\<exists>e. ContentLoss_calculate_score x x = Inl (TorchError e))"
  using mse_loss_self_cases [of x]
  by (auto simp: ContentLoss_calculate_score_def feature_reconstruction_loss_def in_torch_def)

lemma StyleLoss_self:
  "StyleLoss_calculate_score x x = Inr 0
   \<or> (\<exists>e. StyleLoss_calculate_score x x = Inl (TorchError e))"
proof (cases "channelwise_gram_matrix x True")
  case (Inl e)
  then show ?thesis
    by (simp add: StyleLoss_calculate_score_def gram_loss_def in_torch_def)
next
  case (Inr G)
  with mse_loss_self_cases [of G] show ?thesis
    by (auto simp: StyleLoss_calculate_score_def gram_loss_def in_torch_def)
qed

lemma ContentLoss_nonneg: "ContentLoss_calculate_score x y = Inr v \<Longrightarrow> 0 \<le> v"
  by (auto simp: ContentLoss_calculate_score_def feature_reconstruction_loss_def in_torch_def
      split: sum.splits dest: mse_loss_nonneg)

lemma StyleLoss_nonneg: "StyleLoss_calculate_score x y = Inr v \<Longrightarrow> 0 \<le> v"
  by (auto simp: StyleLoss_calculate_score_def gram_loss_def in_torch_def
      split: sum.splits dest: mse_loss_nonneg)

lemma loss_forward_nonneg:
  fixes calc :: "'enc \<Rightarrow> 'enc \<Rightarrow> 'x error + real"
  assumes "\<And>x y s. calc x y = Inr s \<Longrightarrow> 0 \<le> s" and "0 \<le> score_weight self"
    and "snd (MultiLayerLoss_forward calc self input_encs) = Inr v"
  shows "0 \<le> v"
proof -
  from forward_Inr_D [OF assms(3)]
  obtain targets :: "'enc list" and ls where
    c: "collect (\<lambda>(input, target). calc input target) (zip input_encs targets) = Inr ls"
    and v: "v = sum_list ls / real (length ls) * score_weight self"
    by blast
  have "0 \<le> s" if "s \<in> set ls" for s
  proof -
    from that obtain i where i: "i < length ls" "s = ls ! i"
      by (auto simp: in_set_conv_nth)
    with collect_length [OF c] have "i < length (zip input_encs targets)" by simp
    from collect_nth [OF c this] i assms(1) show ?thesis
      by (auto split: prod.splits)
  qed
  then have "0 \<le> sum_list ls" by (rule sum_list_nonneg)
  with assms(2) v show ?thesis by simp
qed

lemma set_targets_Inr_D:
  assumes "set_targets it enc content_layers style_layers content_image style_image
             content_weight style_weight = Inr (content_loss, style_loss)"
  shows "\<exists>tc ts. MultiLayerEncoder_forward it enc content_image [content_layers] = Inr [tc]
           \<and> MultiLayerEncoder_forward it enc style_image [style_layers] = Inr [ts]
           \<and> length tc = length content_layers \<and> length ts = length style_layers
           \<and> content_loss = set_target_encs (MultiLayerLoss_init content_weight) tc
           \<and> style_loss = set_target_encs (MultiLayerLoss_init style_weight) ts"
proof -
  from assms obtain rc rs tc ts where
    rc: "MultiLayerEncoder_forward it enc content_image [content_layers] = Inr rc"
    and rs: "MultiLayerEncoder_forward it enc style_image [style_layers] = Inr rs"
    and hd: "first_result (Inr rc :: torch_error error + tensor list list) = Inr tc"
      "first_result (Inr rs :: torch_error error + tensor list list) = Inr ts"
    and l: "content_loss = set_target_encs (MultiLayerLoss_init content_weight) tc"
      "style_loss = set_target_encs (MultiLayerLoss_init style_weight) ts"
    unfolding set_targets_def
    by (auto simp: first_result_def split: sum.splits list.splits)
  from forward_single_length [OF rc] forward_single_length [OF rs] hd
  have "rc = [tc] \<and> length tc = length content_layers" "rs = [ts] \<and> length ts = length style_layers"
    by (auto simp: first_result_def)
  with rc rs l show ?thesis by blast
qed

text \<open>
  Claim C5, as amended. With the content target and the style target both set from one
  image, scoring that image gives exactly zero whenever it gives a score at all (the
  only other outcome is a failure inside the tensor library, for encodings it cannot
  score): each layer compares an encoding, or its Gram matrix, with itself. Zero is
  the least value the criterion takes on any candidate when both score weights are
  non-negative.
\<close>

theorem same_image_score_is_zero:
  assumes "set_order it" and "distinct (children_names enc)"
    and "set_targets it enc content_layers style_layers img img content_weight style_weight
           = Inr (content_loss, style_loss)"
  shows "(closure it enc content_layers style_layers content_loss style_loss img = Inr 0
          \<or> (\<exists>e. closure it enc content_layers style_layers content_loss style_loss img
                   = Inl (TorchError e)))
       \<and> (\<forall>candidate v.
             0 \<le> content_weight \<and> 0 \<le> style_weight
             \<and> closure it enc content_layers style_layers content_loss style_loss candidate = Inr v
             \<longrightarrow> 0 \<le> v)"
proof (intro conjI allI impI)
  from set_targets_Inr_D [OF assms(3)]
  obtain tc ts where
    fc: "MultiLayerEncoder_forward it enc img [content_layers] = Inr [tc]"
    and fs: "MultiLayerEncoder_forward it enc img [style_layers] = Inr [ts]"
    and lc: "length tc = length content_layers" and ls: "length ts = length style_layers"
    and cl: "content_loss = set_target_encs (MultiLayerLoss_init content_weight) tc"
    and sl: "style_loss = set_target_encs (MultiLayerLoss_init style_weight) ts"
    by blast
  have both: "MultiLayerEncoder_forward it enc img [content_layers, style_layers] = Inr [tc, ts]"
    using assms(1,2) fc fs by (rule forward_two)
  from forward_Inr_requested [OF assms(1) fc] lc have tcne: "tc \<noteq> []" by auto
  from forward_Inr_requested [OF assms(1) fs] ls have tsne: "ts \<noteq> []" by auto
  have c: "snd (ContentLoss_forward content_loss tc) = Inr 0
           \<or> (\<exists>e. snd (ContentLoss_forward content_loss tc) = Inl (TorchError e))"
    unfolding cl ContentLoss_forward_def using ContentLoss_self tcne by (rule loss_forward_self)
  have s: "snd (StyleLoss_forward style_loss ts) = Inr 0
           \<or> (\<exists>e. snd (StyleLoss_forward style_loss ts) = Inl (TorchError e))"
    unfolding sl StyleLoss_forward_def using StyleLoss_self tsne by (rule loss_forward_self)
  from c s show "closure it enc content_layers style_layers content_loss style_loss img = Inr 0
          \<or> (\<exists>e. closure it enc content_layers style_layers content_loss style_loss img
                   = Inl (TorchError e))"
    by (auto simp: closure_def both)
  fix candidate v
  assume a: "0 \<le> content_weight \<and> 0 \<le> style_weight
             \<and> closure it enc content_layers style_layers content_loss style_loss candidate = Inr v"
  then obtain ce se c' s' where
    c': "snd (ContentLoss_forward content_loss ce) = Inr c'"
    and s': "snd (StyleLoss_forward style_loss se) = Inr s'" and v: "v = c' + s'"
    unfolding closure_Inr_iff by blast
  have "0 \<le> score_weight content_loss" "0 \<le> score_weight style_loss"
    using a by (simp_all add: cl sl MultiLayerLoss_init_def)
  with c' s' have "0 \<le> c'" "0 \<le> s'"
    unfolding ContentLoss_forward_def StyleLoss_forward_def
    using ContentLoss_nonneg StyleLoss_nonneg loss_forward_nonneg by blast+
  with v show "0 \<le> v" by simp
qed

theorem same_image_score_is_zero_witness:
  "set_order remdups
   \<and> distinct (children_names example_tensor_encoder)
   \<and> set_targets remdups example_tensor_encoder [''relu2_1''] [''relu1_1'', ''relu2_1'']
        example_image example_image 1 1000 = Inr (example_content_loss, example_style_loss)
   \<and> closure remdups example_tensor_encoder [''relu2_1''] [''relu1_1'', ''relu2_1'']
        example_content_loss example_style_loss example_image = Inr 0
   \<and> (0::real) \<le> 1 \<and> (0::real) \<le> 1000
   \<and> closure remdups example_tensor_encoder [''relu2_1''] [''relu1_1'', ''relu2_1'']
        example_content_loss example_style_loss example_candidate = Inr 1060020
   \<and> (0::real) \<le> 1060020"
proof -
  have d: "distinct (children_names example_tensor_encoder)"
    by (simp add: children_names_def example_tensor_encoder_def)
  note t = same_image_score_is_zero [OF set_order_remdups d example_targets]
  from t have "closure remdups example_tensor_encoder [''relu2_1''] [''relu1_1'', ''relu2_1'']
        example_content_loss example_style_loss example_image = Inr 0
      \<or> (\<exists>e. closure remdups example_tensor_encoder [''relu2_1''] [''relu1_1'', ''relu2_1'']
        example_content_loss example_style_loss example_image = Inl (TorchError e))"
    by blast
  then have z: "closure remdups example_tensor_encoder [''relu2_1''] [''relu1_1'', ''relu2_1'']
        example_content_loss example_style_loss example_image = Inr 0"
    using example_closure_self by simp
  from t example_closure have "(0::real) \<le> 1060020"
    by simp
  with d z example_targets example_closure show ?thesis
    by (simp add: set_order_remdups)
qed

text \<open>
  The claim as stated, a score that is not exactly zero, fails on the example: the
  targets are set from \<open>example_image\<close> and scoring \<open>example_image\<close> gives \<open>0\<close>.
\<close>

theorem same_image_score_nonzero_counterexample:
  "set_targets remdups example_tensor_encoder [''relu2_1''] [''relu1_1'', ''relu2_1'']
        example_image example_image 1 1000 = Inr (example_content_loss, example_style_loss)
   \<and> closure remdups example_tensor_encoder [''relu2_1''] [''relu1_1'', ''relu2_1'']
        example_content_loss example_style_loss example_image = Inr 0"
  using example_targets example_closure_self by simp

section \<open>Properties of the Gram matrix\<close>

lemma length_concat_uniform:
  "(\<forall>xs\<in>set xss. length xs = m) \<Longrightarrow> length (concat xss) = length xss * m"
  by (induction xss) auto

lemma nth_concat_uniform:
  "(\<forall>xs\<in>set xss. length xs = m) \<Longrightarrow> i < length xss \<Longrightarrow> j < m
     \<Longrightarrow> concat xss ! (i * m + j) = xss ! i ! j"
proof (induction xss arbitrary: i)
  case Nil
  then show ?case by simp
next
  case (Cons xs xss)
  show ?case
  proof (cases i)
    case 0
    with Cons.prems show ?thesis by (simp add: nth_append)
  next
    case (Suc k)
    with Cons.prems have "concat xss ! (k * m + j) = xss ! k ! j"
      by (intro Cons.IH) auto
    moreover have "Suc k * m + j = length xs + (k * m + j)"
      using Cons.prems(1) by simp
    ultimately show ?thesis
      using Suc by (simp only: concat.simps nth_append_length_plus nth_Cons_Suc)
  qed
qed

lemma index_bound: "i < d1 \<Longrightarrow> j < d2 \<Longrightarrow> i * d2 + j < d1 * (d2::nat)"
proof -
  assume i: "i < d1" and j: "j < d2"
  have "i * d2 + j < i * d2 + d2" using j by simp
  also have "\<dots> = Suc i * d2" by simp
  also have "\<dots> \<le> d1 * d2" using i by (intro mult_le_mono1) simp
  finally show ?thesis .
qed

lemma at3_tensor3:
  assumes "b < d0" and "i < d1" and "j < d2"
  shows "at3 (tensor3 d0 d1 d2 f) b i j = f b i j"
proof -
  let ?row = "\<lambda>b i. map (\<lambda>j. f b i j) [0 ..< d2]"
  let ?mat = "\<lambda>b. concat (map (?row b) [0 ..< d1])"
  have len_mat: "length (?mat b) = d1 * d2" for b
    using length_concat_uniform [of "map (?row b) [0 ..< d1]" d2] by simp
  have "at3 (tensor3 d0 d1 d2 f) b i j = concat (map ?mat [0 ..< d0]) ! ((b * d1 + i) * d2 + j)"
    by (simp add: at3_def tensor3_def)
  also have "(b * d1 + i) * d2 + j = b * (d1 * d2) + (i * d2 + j)"
    by (simp add: algebra_simps)
  also have "concat (map ?mat [0 ..< d0]) ! (b * (d1 * d2) + (i * d2 + j))
                   = map ?mat [0 ..< d0] ! b ! (i * d2 + j)"
    using assms len_mat by (intro nth_concat_uniform) (auto intro: index_bound)
  also have "map ?mat [0 ..< d0] ! b = ?mat b"
    using assms(1) by simp
  also have "?mat b ! (i * d2 + j) = map (?row b) [0 ..< d1] ! i ! j"
    using assms by (intro nth_concat_uniform) auto
  also have "map (?row b) [0 ..< d1] ! i ! j = f b i j"
    using assms by simp
  finally show ?thesis .
qed

lemma tensor3_cong:
  assumes "\<And>b i j. b < d0 \<Longrightarrow> i < d1 \<Longrightarrow> j < d2 \<Longrightarrow> f b i j = g b i j"
  shows "tensor3 d0 d1 d2 f = tensor3 d0 d1 d2 g"
proof -
  have "map (\<lambda>j. f b i j) [0 ..< d2] = map (\<lambda>j. g b i j) [0 ..< d2]" if "b < d0" "i < d1" for b i
    using assms that by simp
  then have "concat (map (\<lambda>i. map (\<lambda>j. f b i j) [0 ..< d2]) [0 ..< d1])
               = concat (map (\<lambda>i. map (\<lambda>j. g b i j) [0 ..< d2]) [0 ..< d1])" if "b < d0" for b
    using that by (intro arg_cong [where f = concat] map_cong refl) simp
  then have "map (\<lambda>b. concat (map (\<lambda>i. map (\<lambda>j. f b i j) [0 ..< d2]) [0 ..< d1])) [0 ..< d0]
               = map (\<lambda>b. concat (map (\<lambda>i. map (\<lambda>j. g b i j) [0 ..< d2]) [0 ..< d1])) [0 ..< d0]"
    by (intro map_cong refl) simp
  then show ?thesis
    by (simp only: tensor3_def)
qed

lemma map_elems_tensor3:
  "map h (elems (tensor3 d0 d1 d2 f)) = elems (tensor3 d0 d1 d2 (\<lambda>b i j. h (f b i j)))"
  by (simp add: tensor3_def map_concat comp_def)

lemma symmetric_tensor3:
  assumes "\<And>b i j. b < d0 \<Longrightarrow> i < d1 \<Longrightarrow> j < d1 \<Longrightarrow> f b i j = f b j i"
  shows "transpose_1_2 (tensor3 d0 d1 d1 f) = Inr (tensor3 d0 d1 d1 f)"
proof -
  have "tensor3 d0 d1 d1 (\<lambda>b i j. at3 (tensor3 d0 d1 d1 f) b j i) = tensor3 d0 d1 d1 f"
    using assms by (intro tensor3_cong) (simp add: at3_tensor3)
  then show ?thesis
    by (simp add: transpose_1_2_def tensor3_def)
qed

lemma shape_tensor3 [simp]: "shape (tensor3 d0 d1 d2 f) = [d0, d1, d2]"
  by (simp add: tensor3_def)

lemma scale_tensor3:
  "(tensor3 d0 d1 d2 f)\<lparr>elems := map h (elems (tensor3 d0 d1 d2 f))\<rparr>
     = tensor3 d0 d1 d2 (\<lambda>b i j. h (f b i j))"
  using map_elems_tensor3 [of h d0 d1 d2 f] by (simp add: tensor3_def)

lemma gram_unnormalized:
  assumes "3 \<le> length (shape x)"
  defines "B \<equiv> shape x ! 0" and "C \<equiv> shape x ! 1" and "N \<equiv> positions x"
  defines "x' \<equiv> x\<lparr>shape := [B, C, N]\<rparr>"
  shows "channelwise_gram_matrix x False
           = Inr (tensor3 B C C (\<lambda>b i j. \<Sum>k\<leftarrow>[0 ..< N]. at3 x' b i k * at3 x' b j k))"
    and "channelwise_gram_matrix x True
           = div_scalar (tensor3 B C C (\<lambda>b i j. \<Sum>k\<leftarrow>[0 ..< N]. at3 x' b i k * at3 x' b j k)) N"
proof -
  from assms(1) obtain b t1 where t1: "shape x = b # t1" "2 \<le> length t1"
    by (cases "shape x") auto
  then obtain c t2 where t2: "t1 = c # t2" "1 \<le> length t2"
    by (cases t1) auto
  then obtain r rest where "t2 = r # rest"
    by (cases t2) auto
  with t1 t2 have sh: "shape x = b # c # r # rest" by simp
  have fl: "flatten_2 x = Inr x'"
    using assms(1) sh by (simp add: flatten_2_def x'_def B_def C_def N_def positions_def)
  have shx': "shape x' = [B, C, N]" by (simp add: x'_def)
  let ?xt = "tensor3 B N C (\<lambda>b i j. at3 x' b j i)"
  have tr: "transpose_1_2 x' = Inr ?xt"
    by (simp add: transpose_1_2_def shx')
  have "bmm x' ?xt = Inr (tensor3 B C C (\<lambda>c i j. \<Sum>k\<leftarrow>[0 ..< N]. at3 x' c i k * at3 ?xt c k j))"
    by (simp add: bmm_def shx')
  also have "tensor3 B C C (\<lambda>c i j. \<Sum>k\<leftarrow>[0 ..< N]. at3 x' c i k * at3 ?xt c k j)
               = tensor3 B C C (\<lambda>b i j. \<Sum>k\<leftarrow>[0 ..< N]. at3 x' b i k * at3 x' b j k)"
  proof (rule tensor3_cong)
    fix b i j assume "b < B" "i < C" "j < C"
    then have "map (\<lambda>k. at3 x' b i k * at3 ?xt b k j) [0 ..< N]
                 = map (\<lambda>k. at3 x' b i k * at3 x' b j k) [0 ..< N]"
      by (intro map_cong refl) (simp add: at3_tensor3)
    then show "(\<Sum>k\<leftarrow>[0 ..< N]. at3 x' b i k * at3 ?xt b k j)
                 = (\<Sum>k\<leftarrow>[0 ..< N]. at3 x' b i k * at3 x' b j k)"
      by (simp only:)
  qed
  finally have bm: "bmm x' ?xt
      = Inr (tensor3 B C C (\<lambda>b i j. \<Sum>k\<leftarrow>[0 ..< N]. at3 x' b i k * at3 x' b j k))" .
  show "channelwise_gram_matrix x False
           = Inr (tensor3 B C C (\<lambda>b i j. \<Sum>k\<leftarrow>[0 ..< N]. at3 x' b i k * at3 x' b j k))"
    by (simp add: channelwise_gram_matrix_def fl tr bm)
  show "channelwise_gram_matrix x True
           = div_scalar (tensor3 B C C (\<lambda>b i j. \<Sum>k\<leftarrow>[0 ..< N]. at3 x' b i k * at3 x' b j k)) N"
    by (simp add: channelwise_gram_matrix_def fl tr bm shx')
qed

text \<open>
  Claim C10. For every activation tensor \<open>x\<close> (at least three dimensions, so that
  \<open>torch.flatten(x, 2)\<close> is defined), the unnormalised Gram matrix has, per batch entry,
  the inner products of the flattened channels as its entries; the normalised one is the
  unnormalised one divided, element by element, by the number of flattened spatial
  positions (a division that gives no finite values when that number is zero and the
  matrix has entries); and either result equals its own transpose.
\<close>

theorem gram_matrix_normalized_symmetric:
  assumes "3 \<le> length (shape x)"
  shows "\<exists>G. channelwise_gram_matrix x False = Inr G
           \<and> shape G = [shape x ! 0, shape x ! 1, shape x ! 1]
           \<and> (\<forall>b i j. b < shape x ! 0 \<and> i < shape x ! 1 \<and> j < shape x ! 1 \<longrightarrow>
                 at3 G b i j
                   = (\<Sum>k\<leftarrow>[0 ..< positions x].
                        at3 (x\<lparr>shape := [shape x ! 0, shape x ! 1, positions x]\<rparr>) b i k
                        * at3 (x\<lparr>shape := [shape x ! 0, shape x ! 1, positions x]\<rparr>) b j k))
           \<and> channelwise_gram_matrix x True = div_scalar G (positions x)
           \<and> (0 < positions x \<longrightarrow>
                 channelwise_gram_matrix x True
                   = Inr (G\<lparr>elems := map (\<lambda>g. g / real (positions x)) (elems G)\<rparr>))
           \<and> transpose_1_2 G = Inr G
           \<and> (\<forall>Gn. channelwise_gram_matrix x True = Inr Gn \<longrightarrow> transpose_1_2 Gn = Inr Gn)"
proof -
  let ?B = "shape x ! 0" and ?C = "shape x ! 1" and ?N = "positions x"
  let ?x' = "x\<lparr>shape := [?B, ?C, ?N]\<rparr>"
  let ?g = "\<lambda>b i j. \<Sum>k\<leftarrow>[0 ..< ?N]. at3 ?x' b i k * at3 ?x' b j k"
  let ?G = "tensor3 ?B ?C ?C ?g"
  have sym: "?g b i j = ?g b j i" for b i j
    by (simp add: mult.commute)
  note un = gram_unnormalized(1) [OF assms]
  note no = gram_unnormalized(2) [OF assms]
  have entries: "\<forall>b i j. b < ?B \<and> i < ?C \<and> j < ?C \<longrightarrow> at3 ?G b i j = ?g b i j"
    by (simp add: at3_tensor3)
  have pos: "0 < ?N \<longrightarrow> channelwise_gram_matrix x True
                   = Inr (?G\<lparr>elems := map (\<lambda>g. g / real ?N) (elems ?G)\<rparr>)"
    by (simp add: no div_scalar_def)
  have tG: "transpose_1_2 ?G = Inr ?G"
    using sym by (intro symmetric_tensor3)
  have tGn: "\<forall>Gn. channelwise_gram_matrix x True = Inr Gn \<longrightarrow> transpose_1_2 Gn = Inr Gn"
  proof (intro allI impI)
    fix Gn assume "channelwise_gram_matrix x True = Inr Gn"
    then have "Gn = ?G\<lparr>elems := map (\<lambda>g. g / real ?N) (elems ?G)\<rparr>"
      unfolding no by (auto simp: div_scalar_def split: if_splits)
    then have Gn: "Gn = tensor3 ?B ?C ?C (\<lambda>b i j. ?g b i j / real ?N)"
      by (simp only: scale_tensor3)
    show "transpose_1_2 Gn = Inr Gn"
      unfolding Gn using sym by (intro symmetric_tensor3) simp
  qed
  from un no entries pos tG tGn show ?thesis
    by (intro exI [of _ ?G] conjI) simp_all
qed

lemma example_gram:
  "channelwise_gram_matrix example_image False = Inr \<lparr>shape = [1, 2, 2], elems = [5, 11, 11, 25]\<rparr>"
  "channelwise_gram_matrix example_image True
     = Inr \<lparr>shape = [1, 2, 2], elems = [5 / 2, 11 / 2, 11 / 2, 25 / 2]\<rparr>"
  by code_simp+

theorem gram_matrix_normalized_symmetric_witness:
  "3 \<le> length (shape example_image)
   \<and> positions example_image = 2
   \<and> channelwise_gram_matrix example_image False
       = Inr \<lparr>shape = [1, 2, 2], elems = [5, 11, 11, 25]\<rparr>
   \<and> channelwise_gram_matrix example_image True
       = Inr \<lparr>shape = [1, 2, 2], elems = map (\<lambda>g. g / 2) [5, 11, 11, 25]\<rparr>
   \<and> transpose_1_2 \<lparr>shape = [1, 2, 2], elems = [5, 11, 11, 25]\<rparr>
       = Inr \<lparr>shape = [1, 2, 2], elems = [5, 11, 11, 25]\<rparr>"
proof -
  have h: "3 \<le> length (shape example_image)"
    by (simp add: example_image_def)
  have p: "positions example_image = 2"
    by (simp add: positions_def example_image_def)
  from gram_matrix_normalized_symmetric [OF h]
  obtain G where "channelwise_gram_matrix example_image False = Inr G"
    and "transpose_1_2 G = Inr G"
    by blast
  then have "transpose_1_2 \<lparr>shape = [1, 2, 2], elems = [5, 11, 11, 25]\<rparr>
       = Inr \<lparr>shape = [1, 2, 2], elems = [5, 11, 11, 25]\<rparr>"
    by (simp add: example_gram)
  with h p show ?thesis
    by (simp add: example_gram)
qed

section \<open>Properties of the image pyramid scheduler\<close>

lemma driver_steps_total:
  assumes "\<forall>img. \<exists>img'. step img = Inr img'"
  shows "\<exists>img'. driver_steps step i n (img, evs) = Inr (img', evs @ replicate n (DriverStep i))"
proof (induction n arbitrary: img evs)
  case 0
  then show ?case by simp
next
  case (Suc n)
  from assms obtain y where y: "step img = Inr y" by blast
  from Suc [of y "evs @ [DriverStep i]"] y show ?case
    by (simp add: replicate_app_Cons_same)
qed

lemma run_levels_total:
  assumes "\<forall>level img. \<exists>img'. step level img = Inr img'"
  shows "\<exists>img'. run_levels resize step i levels (img, evs)
           = Inr (img', evs @ concat (map level_events (enumerate i levels)))"
proof (induction levels arbitrary: i img evs)
  case Nil
  then show ?case by simp
next
  case (Cons level levels)
  from assms have "\<forall>img. \<exists>img'. step level img = Inr img'" by blast
  from driver_steps_total [OF this, of i "num_steps level" "resize level img" "evs @ [EnterLevel i level]"]
  obtain y where y: "driver_steps (step level) i (num_steps level)
      (resize level img, evs @ [EnterLevel i level])
        = Inr (y, (evs @ [EnterLevel i level]) @ replicate (num_steps level) (DriverStep i))"
    by blast
  from Cons [of "Suc i" y "(evs @ [EnterLevel i level]) @ replicate (num_steps level) (DriverStep i)"]
  show ?case
    using y by (simp add: level_events_def)
qed

lemma entered_edge_sizes_append:
  "entered_edge_sizes (xs @ ys) = entered_edge_sizes xs @ entered_edge_sizes ys"
  by (induction xs rule: entered_edge_sizes.induct) auto

lemma entered_edge_sizes_steps: "entered_edge_sizes (replicate n (DriverStep i)) = []"
  by (induction n) auto

lemma entered_level_events: "entered_edge_sizes (level_events (i, level)) = [edge_size level]"
  by (simp add: level_events_def entered_edge_sizes_steps)

lemma entered_all_levels:
  "entered_edge_sizes (concat (map level_events (enumerate i levels))) = map edge_size levels"
  by (induction levels arbitrary: i) (auto simp: entered_edge_sizes_append entered_level_events)

lemma total_steps_append: "total_steps (xs @ ys) = total_steps xs + total_steps ys"
  by (induction xs rule: total_steps.induct) auto

lemma total_steps_replicate: "total_steps (replicate n (DriverStep i)) = n"
  by (induction n) auto

lemma total_steps_all_levels:
  "total_steps (concat (map level_events (enumerate i levels))) = sum_list (map num_steps levels)"
  by (induction levels arbitrary: i)
     (auto simp: total_steps_append total_steps_replicate level_events_def)

lemma steps_at_append: "steps_at k (xs @ ys) = steps_at k xs + steps_at k ys"
  by (induction k xs rule: steps_at.induct) auto

lemma steps_at_replicate: "steps_at k (replicate n (DriverStep i)) = (if k = i then n else 0)"
  by (induction n) auto

lemma steps_at_level_events:
  "steps_at k (level_events (i, level)) = (if k = i then num_steps level else 0)"
  by (simp add: level_events_def steps_at_replicate)

lemma steps_at_all_levels:
  "steps_at k (concat (map level_events (enumerate i levels)))
     = (if i \<le> k \<and> k < i + length levels then num_steps (levels ! (k - i)) else 0)"
proof (induction levels arbitrary: i)
  case Nil
  then show ?case by simp
next
  case (Cons level levels)
  have "steps_at k (concat (map level_events (enumerate i (level # levels))))
          = steps_at k (level_events (i, level))
            + steps_at k (concat (map level_events (enumerate (Suc i) levels)))"
    by (simp add: steps_at_append)
  also have "\<dots> = (if k = i then num_steps level else 0)
            + (if Suc i \<le> k \<and> k < Suc i + length levels then num_steps (levels ! (k - Suc i)) else 0)"
    by (simp only: steps_at_level_events Cons)
  also have "\<dots> = (if i \<le> k \<and> k < i + length (level # levels)
                    then num_steps ((level # levels) ! (k - i)) else 0)"
  proof (cases "k = i")
    case True
    then show ?thesis by simp
  next
    case False
    show ?thesis
    proof (cases "i < k")
      case True
      then obtain m where "k - i = Suc m" and "k - Suc i = m"
        by (cases "k - i") auto
      with True False show ?thesis by auto
    next
      case False
      with \<open>k \<noteq> i\<close> show ?thesis by auto
    qed
  qed
  finally show ?case .
qed

text \<open>
  Claim C2, as amended. When no driver step fails, the scheduler enters the levels in
  the order in which the pyramid was constructed and delegates to the driver exactly
  the configured number of steps at each level before it advances; for
  \<open>levels = (250, 500)\<close> and \<open>num_steps = 200\<close> these are 200 steps at edge 250, then 200
  at edge 500, 400 in total. For a pyramid constructed with ascending edge sizes no
  level is entered at a lower resolution after a higher one.
\<close>

theorem pyramid_levels_in_construction_order:
  assumes "\<forall>level img. \<exists>img'. step level img = Inr img'"
  shows "\<exists>img' evs. pyramid_image_optimization resize step input_image pyramid = Inr (img', evs)
           \<and> evs = concat (map level_events (enumerate 0 pyramid))
           \<and> entered_edge_sizes evs = map edge_size pyramid
           \<and> (\<forall>i<length pyramid. steps_at i evs = num_steps (pyramid ! i))
           \<and> total_steps evs = sum_list (map num_steps pyramid)
           \<and> (sorted (map edge_size pyramid) \<longrightarrow> sorted (entered_edge_sizes evs))"
proof -
  let ?evs = "concat (map level_events (enumerate 0 pyramid))"
  from run_levels_total [OF assms, of resize 0 pyramid input_image "[]"]
  obtain img' where "pyramid_image_optimization resize step input_image pyramid = Inr (img', ?evs)"
    by (auto simp: pyramid_image_optimization_def)
  moreover have "entered_edge_sizes ?evs = map edge_size pyramid"
    by (rule entered_all_levels)
  moreover have "\<forall>i<length pyramid. steps_at i ?evs = num_steps (pyramid ! i)"
    by (simp add: steps_at_all_levels)
  moreover have "total_steps ?evs = sum_list (map num_steps pyramid)"
    by (rule total_steps_all_levels)
  ultimately show ?thesis
    by (intro exI [of _ img'] exI [of _ ?evs]) simp
qed

theorem pyramid_levels_in_construction_order_witness:
  "(\<forall>level img. \<exists>img'. (\<lambda>(l::pyramid_level) x. Inr (Suc x) :: unit + nat) level img = Inr img')
   \<and> (\<exists>img' evs.
         pyramid_image_optimization (\<lambda>l x. x) (\<lambda>l x. Inr (Suc x) :: unit + nat) 0
             (ImagePyramid [250, 500] 200) = Inr (img', evs)
       \<and> evs = EnterLevel 0 \<lparr>edge_size = 250, num_steps = 200, edge = Short\<rparr>
                 # replicate 200 (DriverStep 0)
               @ EnterLevel 1 \<lparr>edge_size = 500, num_steps = 200, edge = Short\<rparr>
                 # replicate 200 (DriverStep 1)
       \<and> entered_edge_sizes evs = [250, 500]
       \<and> steps_at 0 evs = 200 \<and> steps_at 1 evs = 200
       \<and> total_steps evs = 400
       \<and> sorted (entered_edge_sizes evs))"
proof -
  have h: "\<forall>level img. \<exists>img'. (\<lambda>(l::pyramid_level) x. Inr (Suc x) :: unit + nat) level img = Inr img'"
    by simp
  have p: "ImagePyramid [250, 500] 200
             = [\<lparr>edge_size = 250, num_steps = 200, edge = Short\<rparr>,
                \<lparr>edge_size = 500, num_steps = 200, edge = Short\<rparr>]"
    by (simp add: ImagePyramid_def)
  from pyramid_levels_in_construction_order [OF h, of "\<lambda>l x. x" 0 "ImagePyramid [250, 500] 200"]
  obtain img' evs where
    r: "pyramid_image_optimization (\<lambda>l x. x) (\<lambda>l x. Inr (Suc x) :: unit + nat) 0
             (ImagePyramid [250, 500] 200) = Inr (img', evs)"
    and e: "evs = concat (map level_events (enumerate 0 (ImagePyramid [250, 500] 200)))"
    and ed: "entered_edge_sizes evs = map edge_size (ImagePyramid [250, 500] 200)"
    and st: "\<forall>i<length (ImagePyramid [250, 500] 200).
               steps_at i evs = num_steps (ImagePyramid [250, 500] 200 ! i)"
    and tot: "total_steps evs = sum_list (map num_steps (ImagePyramid [250, 500] 200))"
    by blast
  have e': "evs = EnterLevel 0 \<lparr>edge_size = 250, num_steps = 200, edge = Short\<rparr>
                 # replicate 200 (DriverStep 0)
               @ EnterLevel 1 \<lparr>edge_size = 500, num_steps = 200, edge = Short\<rparr>
                 # replicate 200 (DriverStep 1)"
    unfolding e p by (simp add: level_events_def)
  have ed': "entered_edge_sizes evs = [250, 500]"
    using ed by (simp add: p)
  have s0: "steps_at 0 evs = 200" and s1: "steps_at 1 evs = 200"
    using st by (simp_all add: p)
  have tot': "total_steps evs = 400"
    using tot by (simp add: p)
  have "sorted (entered_edge_sizes evs)"
    by (simp add: ed')
  with h r e' ed' s0 s1 tot' show ?thesis by blast
qed

text \<open>
  The claim as stated, for every level sequence, fails for a pyramid constructed with
  descending edge sizes: the level of edge 250 is entered after the level of edge 500.
\<close>

theorem pyramid_descending_levels_counterexample:
  "map_sum id (\<lambda>(img, evs). entered_edge_sizes evs)
     (pyramid_image_optimization (\<lambda>l x. x) (\<lambda>l x. Inr (Suc x) :: unit + nat) 0
        (ImagePyramid [500, 250] 1))
   = Inr [500, 250]"
  by (simp add: pyramid_image_optimization_def ImagePyramid_def)

end
